theory Spec2Isabelle
  imports Complex_Main
begin

section \<open>The allocator engine of backend/buddy\_allocator.py\<close>

subsection \<open>Blocks and the manager state\<close>

text \<open>
  A \<open>MemoryBlock\<close> object has the four fields of the Python class; \<open>end\<close> is the
  derived property \<open>start + size\<close>.  The field \<open>size\<close> is called \<open>size_kb\<close> here.
\<close>

record MemoryBlock =
  start :: int
  size_kb :: int
  is_free :: bool
  process_name :: "string option"

definition block_end :: "MemoryBlock \<Rightarrow> int" where
  "block_end b = start b + size_kb b"

text \<open>
  Python block objects are shared between the list \<open>self.blocks\<close> and the dictionary
  \<open>self.process_map\<close>, and they are mutated in place.  The model therefore keeps an
  explicit object store: a reference is a natural number, \<open>store\<close> gives the object
  behind a reference and \<open>next_ref\<close> is the next unused reference.  The block list and
  the process map hold references.  A dictionary key is whatever \<open>process_name\<close> of
  a block can be, hence \<open>string option\<close>.
\<close>

type_synonym ref = nat

record manager =
  total_memory :: int
  blocks :: "ref list"
  process_map :: "string option \<rightharpoonup> ref"
  store :: "ref \<Rightarrow> MemoryBlock"
  next_ref :: ref

definition new_block :: "MemoryBlock \<Rightarrow> manager \<Rightarrow> ref \<times> manager" where
  "new_block b s =
     (next_ref s, s\<lparr>store := (store s)(next_ref s := b), next_ref := Suc (next_ref s)\<rparr>)"

text \<open>The ordered sequence of block values, as \<open>get_status\<close> reads it.\<close>

definition block_list :: "manager \<Rightarrow> MemoryBlock list" where
  "block_list s = map (store s) (blocks s)"

subsection \<open>Construction and reset\<close>

definition initialize_memory :: "manager \<Rightarrow> manager" where
  "initialize_memory s =
     (case new_block \<lparr>start = 0, size_kb = total_memory s, is_free = True,
                      process_name = None\<rparr> s of
        (r, s') \<Rightarrow> s'\<lparr>blocks := [r], process_map := Map.empty\<rparr>)"

definition ImprovisedMemoryManager :: "int \<Rightarrow> manager" where
  "ImprovisedMemoryManager capacity =
     initialize_memory
       \<lparr>total_memory = capacity, blocks = [], process_map = Map.empty,
        store = (\<lambda>_. \<lparr>start = 0, size_kb = 0, is_free = True, process_name = None\<rparr>),
        next_ref = 0\<rparr>"

text \<open>
  \<open>reset\<close> tests its argument for truthiness: \<open>None\<close> and \<open>0\<close> are both false.
\<close>

definition reset :: "manager \<Rightarrow> int option \<Rightarrow> manager" where
  "reset s new_total_memory =
     initialize_memory
       (case new_total_memory of
          None \<Rightarrow> s
        | Some n \<Rightarrow> if n \<noteq> 0 then s\<lparr>total_memory := n\<rparr> else s)"

subsection \<open>Rounding and best fit\<close>

text \<open>
  \<open>_round_to_power_of_2\<close> computes \<open>2 ** math.ceil(math.log2(size))\<close> for a positive
  size.  \<open>math.log2\<close> is the floating-point routine of the Python library, which is
  not part of the repository; the value of \<open>math.ceil(math.log2(size))\<close> is taken as
  the parameter \<open>ceil_log2\<close>.
\<close>

definition round_to_power_of_2 :: "(int \<Rightarrow> nat) \<Rightarrow> int \<Rightarrow> int" where
  "round_to_power_of_2 ceil_log2 requested =
     (if requested \<le> 0 then 1 else 2 ^ ceil_log2 requested)"

text \<open>
  The scan of \<open>_find_best_fit\<close>.  \<open>best_size\<close> starts at \<open>float('inf')\<close>, which is
  \<open>None\<close> here: every integer is below it.
\<close>

fun find_best_fit_loop ::
  "(ref \<Rightarrow> MemoryBlock) \<Rightarrow> int \<Rightarrow> nat \<Rightarrow> ref list \<Rightarrow> nat option \<Rightarrow> int option \<Rightarrow> nat option"
where
  "find_best_fit_loop st wanted idx [] best_idx best_size = best_idx"
| "find_best_fit_loop st wanted idx (r # rs) best_idx best_size =
     (if is_free (st r) \<and> size_kb (st r) \<ge> wanted \<and>
         (case best_size of None \<Rightarrow> True | Some b \<Rightarrow> size_kb (st r) < b)
      then find_best_fit_loop st wanted (Suc idx) rs (Some idx) (Some (size_kb (st r)))
      else find_best_fit_loop st wanted (Suc idx) rs best_idx best_size)"

definition find_best_fit :: "manager \<Rightarrow> int \<Rightarrow> nat option" where
  "find_best_fit s wanted = find_best_fit_loop (store s) wanted 0 (blocks s) None None"

subsection \<open>Allocation\<close>

text \<open>The messages are the format strings of the source with their arguments.\<close>

datatype message =
    Msg_already_allocated string
  | Msg_no_suitable_block
  | Msg_allocated string int
  | Msg_not_found string
  | Msg_deallocated string
  | Msg_nothing_to_compact
  | Msg_compacted

definition list_insert :: "nat \<Rightarrow> 'a \<Rightarrow> 'a list \<Rightarrow> 'a list" where
  "list_insert i x xs = take i xs @ x # drop i xs"

definition allocate ::
  "(int \<Rightarrow> nat) \<Rightarrow> manager \<Rightarrow> string \<Rightarrow> int \<Rightarrow> bool
     \<Rightarrow> (bool \<times> message \<times> int option) \<times> manager"
where
  "allocate ceil_log2 s name requested use_buddy =
     (if Some name \<in> dom (process_map s)
      then ((False, Msg_already_allocated name, None), s)
      else
        let actual_size =
              (if use_buddy then round_to_power_of_2 ceil_log2 requested else requested)
        in case find_best_fit s actual_size of
             None \<Rightarrow> ((False, Msg_no_suitable_block, None), s)
           | Some best_idx \<Rightarrow>
               let block = blocks s ! best_idx;
                   old = store s block;
                   start_address = start old;
                   s1 =
                     (if size_kb old > actual_size
                      then
                        case new_block \<lparr>start = start old, size_kb = actual_size,
                                        is_free = False, process_name = Some name\<rparr> s of
                          (allocated_block, sa) \<Rightarrow>
                        case new_block \<lparr>start = start old + actual_size,
                                        size_kb = size_kb old - actual_size,
                                        is_free = True, process_name = None\<rparr> sa of
                          (remaining_block, sr) \<Rightarrow>
                            sr\<lparr>blocks :=
                                 list_insert (best_idx + 1) remaining_block
                                   ((blocks sr)[best_idx := allocated_block])\<rparr>
                      else
                        s\<lparr>store :=
                            (store s)(block := old\<lparr>is_free := False,
                                                   process_name := Some name\<rparr>)\<rparr>)
               in ((True, Msg_allocated name actual_size, Some start_address),
                   s1\<lparr>process_map :=
                        (process_map s1)(Some name \<mapsto> blocks s1 ! best_idx)\<rparr>))"

subsection \<open>Deallocation and coalescing\<close>

text \<open>The \<open>for\<close> loop of \<open>deallocate\<close>: the first owned block is freed, then \<open>break\<close>.\<close>

fun free_first_owned ::
  "(ref \<Rightarrow> MemoryBlock) \<Rightarrow> string \<Rightarrow> ref list \<Rightarrow> (ref \<Rightarrow> MemoryBlock)"
where
  "free_first_owned st name [] = st"
| "free_first_owned st name (r # rs) =
     (if \<not> is_free (st r) \<and> process_name (st r) = Some name
      then st(r := (st r)\<lparr>is_free := True, process_name := None\<rparr>)
      else free_first_owned st name rs)"

text \<open>
  The inner \<open>while\<close> of \<open>_merge_free_blocks\<close>: \<open>current\<close> absorbs the sizes of the
  free blocks that follow it; what is returned is the store and the blocks from
  index \<open>j\<close> on.
\<close>

fun merge_run ::
  "(ref \<Rightarrow> MemoryBlock) \<Rightarrow> ref \<Rightarrow> ref list \<Rightarrow> (ref \<Rightarrow> MemoryBlock) \<times> ref list"
where
  "merge_run st cur [] = (st, [])"
| "merge_run st cur (r # rs) =
     (if is_free (st r)
      then merge_run (st(cur := (st cur)\<lparr>size_kb := size_kb (st cur) + size_kb (st r)\<rparr>))
             cur rs
      else (st, r # rs))"

text \<open>The outer \<open>while\<close>: the blocks from index \<open>i\<close> on, and the list \<open>merged\<close>.\<close>

function merge_loop ::
  "(ref \<Rightarrow> MemoryBlock) \<Rightarrow> ref list \<Rightarrow> ref list \<Rightarrow> (ref \<Rightarrow> MemoryBlock) \<times> ref list"
where
  "merge_loop st [] merged = (st, merged)"
| "merge_loop st (cur # rest) merged =
     (if is_free (st cur)
      then merge_loop (fst (merge_run st cur rest)) (snd (merge_run st cur rest))
             (merged @ [cur])
      else merge_loop st rest (merged @ [cur]))"
  by pat_completeness auto
termination
proof (relation "measure (\<lambda>(st, rs, merged). length rs)")
  show "wf (measure (\<lambda>(st, rs, merged). length rs))"
    by simp
next
  fix st :: "ref \<Rightarrow> MemoryBlock" and cur rest merged
  have "length (snd (merge_run st' cur rs)) \<le> length rs" for st' rs
    by (induction rs arbitrary: st') (auto intro: le_SucI)
  then have "length (snd (merge_run st cur rest)) < Suc (length rest)"
    by (simp add: le_imp_less_Suc)
  then show "((fst (merge_run st cur rest), snd (merge_run st cur rest), merged @ [cur]),
         (st, cur # rest, merged)) \<in> measure (\<lambda>(st, rs, merged). length rs)"
    by simp
next
  fix st :: "ref \<Rightarrow> MemoryBlock" and cur rest merged
  show "((st, rest, merged @ [cur]), (st, cur # rest, merged))
         \<in> measure (\<lambda>(st, rs, merged). length rs)"
    by simp
qed

definition merge_free_blocks :: "manager \<Rightarrow> manager" where
  "merge_free_blocks s =
     (if length (blocks s) \<le> 1 then s
      else case merge_loop (store s) (blocks s) [] of
             (st, merged) \<Rightarrow> s\<lparr>store := st, blocks := merged\<rparr>)"

definition deallocate :: "manager \<Rightarrow> string \<Rightarrow> (bool \<times> message) \<times> manager" where
  "deallocate s name =
     (if Some name \<notin> dom (process_map s)
      then ((False, Msg_not_found name), s)
      else
        let s1 = s\<lparr>store := free_first_owned (store s) name (blocks s)\<rparr>;
            s2 = s1\<lparr>process_map := (process_map s1)(Some name := None)\<rparr>
        in ((True, Msg_deallocated name), merge_free_blocks s2))"

subsection \<open>Compaction\<close>

fun compact_loop :: "manager \<Rightarrow> ref list \<Rightarrow> ref list \<Rightarrow> int \<Rightarrow> manager \<times> ref list \<times> int" where
  "compact_loop s [] new_blocks current_address = (s, new_blocks, current_address)"
| "compact_loop s (b # bs) new_blocks current_address =
     (case new_block \<lparr>start = current_address, size_kb = size_kb (store s b),
                      is_free = False, process_name = process_name (store s b)\<rparr> s of
        (n, s1) \<Rightarrow>
          compact_loop
            (s1\<lparr>process_map := (process_map s1)(process_name (store s1 b) \<mapsto> n)\<rparr>)
            bs (new_blocks @ [n]) (current_address + size_kb (store s1 b)))"

definition compact :: "manager \<Rightarrow> (bool \<times> message \<times> nat) \<times> manager" where
  "compact s =
     (let allocated_blocks = filter (\<lambda>r. \<not> is_free (store s r)) (blocks s)
      in if allocated_blocks = []
         then ((False, Msg_nothing_to_compact, 0), s)
         else
           case compact_loop s allocated_blocks [] 0 of
             (s1, new_blocks, current_address) \<Rightarrow>
               let free_space = total_memory s1 - current_address;
                   (new_blocks', s2) =
                     (if free_space > 0
                      then case new_block \<lparr>start = current_address, size_kb = free_space,
                                           is_free = True, process_name = None\<rparr> s1 of
                             (f, sf) \<Rightarrow> (new_blocks @ [f], sf)
                      else (new_blocks, s1))
               in ((True, Msg_compacted, length allocated_blocks),
                   s2\<lparr>blocks := new_blocks'\<rparr>))"

subsection \<open>Derived metrics\<close>

definition get_used_memory :: "manager \<Rightarrow> int" where
  "get_used_memory s = sum_list (map size_kb (filter (\<lambda>b. \<not> is_free b) (block_list s)))"

definition get_free_memory :: "manager \<Rightarrow> int" where
  "get_free_memory s = sum_list (map size_kb (filter is_free (block_list s)))"

text \<open>
  \<open>get_fragmentation_ratio\<close> returns a Python float.  It divides two ints with \<open>/\<close>,
  which gives the double nearest to the quotient, not the quotient itself: for 3 free
  blocks of 6 the result is \<open>0.3333333333333333\<close>, not one third.  The float
  arithmetic is not part of the repository, so the value of \<open>a / b\<close> on two ints is
  taken as the parameter \<open>true_div\<close>, a double read as a real number; the literal
  \<open>0.0\<close> is the number 0.  The method is modelled with the state it leaves, so that
  what the call does to the state can be stated.
\<close>

definition get_fragmentation_ratio ::
  "(int \<Rightarrow> int \<Rightarrow> real) \<Rightarrow> manager \<Rightarrow> real \<times> manager"
where
  "get_fragmentation_ratio true_div s =
     (let free_blocks = filter (\<lambda>r. is_free (store s r)) (blocks s)
      in if length free_blocks \<le> 1 then (0, s)
         else (true_div (int (length free_blocks) - 1) (int (length (blocks s))), s))"

subsection \<open>Reachable states\<close>

text \<open>
  The states the engine can be in: construction with any capacity, then any
  sequence of calls with any arguments.  The rounding parameter is free in every
  \<open>allocate\<close> step.
\<close>

inductive reachable :: "manager \<Rightarrow> bool" where
  reach_init: "reachable (ImprovisedMemoryManager capacity)"
| reach_allocate: "reachable s \<Longrightarrow> reachable (snd (allocate lc s name requested use_buddy))"
| reach_deallocate: "reachable s \<Longrightarrow> reachable (snd (deallocate s name))"
| reach_compact: "reachable s \<Longrightarrow> reachable (snd (compact s))"
| reach_reset: "reachable s \<Longrightarrow> reachable (reset s new_total_memory)"

text \<open>
  The same with positive sizes only: a positive capacity at construction and at
  reset (or none given), and \<open>allocate\<close> either with rounding or with a positive
  requested size.
\<close>

inductive reachable_positive :: "manager \<Rightarrow> bool" where
  pos_init: "0 < capacity \<Longrightarrow> reachable_positive (ImprovisedMemoryManager capacity)"
| pos_allocate: "reachable_positive s \<Longrightarrow> use_buddy \<or> 0 < requested \<Longrightarrow>
     reachable_positive (snd (allocate lc s name requested use_buddy))"
| pos_deallocate: "reachable_positive s \<Longrightarrow> reachable_positive (snd (deallocate s name))"
| pos_compact: "reachable_positive s \<Longrightarrow> reachable_positive (snd (compact s))"
| pos_reset_same: "reachable_positive s \<Longrightarrow> reachable_positive (reset s None)"
| pos_reset: "reachable_positive s \<Longrightarrow> 0 \<le> capacity \<Longrightarrow>
     reachable_positive (reset s (Some capacity))"

subsection \<open>The invariants of the specification\<close>

definition partitions_capacity :: "MemoryBlock list \<Rightarrow> int \<Rightarrow> bool" where
  "partitions_capacity bl cap \<longleftrightarrow>
     bl \<noteq> [] \<and> start (hd bl) = 0 \<and> block_end (last bl) = cap
     \<and> (\<forall>i. Suc i < length bl \<longrightarrow> start (bl ! Suc i) = block_end (bl ! i))
     \<and> (\<forall>i j. i < j \<and> j < length bl \<longrightarrow> start (bl ! i) < start (bl ! j))
     \<and> (\<forall>i. i < length bl \<longrightarrow> 0 < size_kb (bl ! i))"

definition no_adjacent_free :: "MemoryBlock list \<Rightarrow> bool" where
  "no_adjacent_free bl \<longleftrightarrow>
     (\<forall>i. Suc i < length bl \<longrightarrow> \<not> (is_free (bl ! i) \<and> is_free (bl ! Suc i)))"

definition block_list_invariant :: "manager \<Rightarrow> bool" where
  "block_list_invariant s \<longleftrightarrow>
     partitions_capacity (block_list s) (total_memory s) \<and> no_adjacent_free (block_list s)"

text \<open>
  The registry is consistent with the block sequence: its keys are the owners of
  the allocated blocks, a name maps to the one block object of the sequence that it
  owns, and a free block has no owner.
\<close>

definition registry_consistent :: "manager \<Rightarrow> bool" where
  "registry_consistent s \<longleftrightarrow>
     distinct (blocks s)
     \<and> dom (process_map s) =
         {process_name (store s r) |r. r \<in> set (blocks s) \<and> \<not> is_free (store s r)}
     \<and> (\<forall>k r. process_map s k = Some r \<longrightarrow>
           r \<in> set (blocks s) \<and> \<not> is_free (store s r) \<and> process_name (store s r) = k
           \<and> (\<forall>r'. r' \<in> set (blocks s) \<and> \<not> is_free (store s r')
                      \<and> process_name (store s r') = k \<longrightarrow> r' = r))
     \<and> (\<forall>r. r \<in> set (blocks s) \<and> is_free (store s r) \<longrightarrow> process_name (store s r) = None)
     \<and> (\<forall>r. r \<in> set (blocks s) \<and> \<not> is_free (store s r) \<longrightarrow> process_name (store s r) \<noteq> None)"

subsection \<open>Auxiliary notions for the proofs\<close>

text \<open>The object store is well formed: no block object occurs twice, none is unused.\<close>

definition heap_ok :: "manager \<Rightarrow> bool" where
  "heap_ok s \<longleftrightarrow> distinct (blocks s) \<and> (\<forall>r. r \<in> set (blocks s) \<longrightarrow> r < next_ref s)"

definition registry_ok :: "manager \<Rightarrow> bool" where
  "registry_ok s \<longleftrightarrow>
     (\<forall>k r. process_map s k = Some r \<longrightarrow>
        r \<in> set (blocks s) \<and> \<not> is_free (store s r) \<and> process_name (store s r) = k)
     \<and> (\<forall>r. r \<in> set (blocks s) \<and> \<not> is_free (store s r) \<longrightarrow>
            process_map s (process_name (store s r)) = Some r)
     \<and> (\<forall>r. r \<in> set (blocks s) \<and> is_free (store s r) \<longrightarrow> process_name (store s r) = None)
     \<and> process_map s None = None"

text \<open>A run of blocks from address \<open>a\<close> to address \<open>b\<close>, each of positive size.\<close>

fun chain :: "int \<Rightarrow> MemoryBlock list \<Rightarrow> int \<Rightarrow> bool" where
  "chain a [] b = (a = b)"
| "chain a (x # xs) b = (start x = a \<and> 0 < size_kb x \<and> chain (block_end x) xs b)"

fun naf :: "MemoryBlock list \<Rightarrow> bool" where
  "naf (x # y # xs) = (\<not> (is_free x \<and> is_free y) \<and> naf (y # xs))"
| "naf xs = True"

text \<open>Coalescing on block values: \<open>c\<close> is the block \<open>current\<close> of the loop.\<close>

fun coalesce_from :: "MemoryBlock \<Rightarrow> MemoryBlock list \<Rightarrow> MemoryBlock list" where
  "coalesce_from c [] = [c]"
| "coalesce_from c (x # xs) =
     (if is_free c \<and> is_free x
      then coalesce_from (c\<lparr>size_kb := size_kb c + size_kb x\<rparr>) xs
      else c # coalesce_from x xs)"

definition coalesce :: "MemoryBlock list \<Rightarrow> MemoryBlock list" where
  "coalesce xs = (case xs of [] \<Rightarrow> [] | x # ys \<Rightarrow> coalesce_from x ys)"

text \<open>Compaction on block values.\<close>

fun relocate :: "int \<Rightarrow> MemoryBlock list \<Rightarrow> MemoryBlock list" where
  "relocate a [] = []"
| "relocate a (b # bs) =
     \<lparr>start = a, size_kb = size_kb b, is_free = False, process_name = process_name b\<rparr>
       # relocate (a + size_kb b) bs"

definition fits :: "(ref \<Rightarrow> MemoryBlock) \<Rightarrow> int \<Rightarrow> ref \<Rightarrow> bool" where
  "fits st w r \<longleftrightarrow> is_free (st r) \<and> w \<le> size_kb (st r)"

text \<open>
  Two stores agree except for the sizes of free blocks: what coalescing does to the
  store.
\<close>

definition frees_resized :: "(ref \<Rightarrow> MemoryBlock) \<Rightarrow> (ref \<Rightarrow> MemoryBlock) \<Rightarrow> bool" where
  "frees_resized st st' \<longleftrightarrow>
     (\<forall>r. is_free (st' r) = is_free (st r) \<and> process_name (st' r) = process_name (st r)
          \<and> start (st' r) = start (st r) \<and> (\<not> is_free (st r) \<longrightarrow> st' r = st r))"

text \<open>The local variable \<open>actual_size\<close> of \<open>allocate\<close>.\<close>

definition actual_size :: "(int \<Rightarrow> nat) \<Rightarrow> int \<Rightarrow> bool \<Rightarrow> int" where
  "actual_size lc requested use_buddy =
     (if use_buddy then round_to_power_of_2 lc requested else requested)"

text \<open>The references of the allocated blocks, in the order of the block list.\<close>

definition allocated_refs :: "manager \<Rightarrow> ref list" where
  "allocated_refs s = filter (\<lambda>r. \<not> is_free (store s r)) (blocks s)"

text \<open>The block-list invariant in its recursive form, with a positive capacity.\<close>

definition tiled :: "manager \<Rightarrow> bool" where
  "tiled s \<longleftrightarrow>
     0 < total_memory s \<and> chain 0 (block_list s) (total_memory s) \<and> naf (block_list s)"

text \<open>The boundaries of the free regions: start and end of every free block.\<close>

definition free_boundaries :: "manager \<Rightarrow> (int \<times> int) set" where
  "free_boundaries s = {(start b, block_end b) |b. b \<in> set (block_list s) \<and> is_free b}"

text \<open>A process owns a block: some allocated block of the sequence carries its name.\<close>

definition owns_block :: "manager \<Rightarrow> string \<Rightarrow> bool" where
  "owns_block s name \<longleftrightarrow>
     (\<exists>b. b \<in> set (block_list s) \<and> \<not> is_free b \<and> process_name b = Some name)"

text \<open>
  A state reached through requested sizes that are not positive: capacity 10, then
  \<open>A\<close> of size 2, \<open>B\<close> of size -20, \<open>C\<close> of size 2 and \<open>D\<close> of size 26 are allocated
  without rounding, and \<open>A\<close> and \<open>C\<close> are deallocated.
\<close>

definition tie_state :: manager where
  "tie_state =
     snd (deallocate (snd (deallocate
       (snd (allocate (\<lambda>_. 0)
         (snd (allocate (\<lambda>_. 0)
           (snd (allocate (\<lambda>_. 0)
             (snd (allocate (\<lambda>_. 0) (ImprovisedMemoryManager 10) ''A'' 2 False))
             ''B'' (-20) False))
           ''C'' 2 False))
         ''D'' 26 False)) ''A'')) ''C'')"

text \<open>
  Three states for compaction.  The first has a hole: capacity 1024, \<open>P1\<close> and \<open>P2\<close>
  allocated with rounding (128 each), \<open>P1\<close> deallocated.  The other two are reached
  through negative requested sizes: in \<open>overfull_state\<close> the allocated sizes add up
  to more than the capacity, in \<open>flipped_state\<close> a block of negative size precedes
  a hole.
\<close>

definition hole_state :: manager where
  "hole_state =
     snd (deallocate
       (snd (allocate (\<lambda>_. 7)
         (snd (allocate (\<lambda>_. 7) (ImprovisedMemoryManager 1024) ''P1'' 100 True))
         ''P2'' 100 True)) ''P1'')"

definition overfull_state :: manager where
  "overfull_state =
     snd (deallocate
       (snd (allocate (\<lambda>_. 0)
         (snd (allocate (\<lambda>_. 0) (ImprovisedMemoryManager 10) ''A'' (-5) False))
         ''B'' 15 False)) ''A'')"

definition flipped_state :: manager where
  "flipped_state =
     snd (deallocate
       (snd (allocate (\<lambda>_. 0)
         (snd (allocate (\<lambda>_. 0)
           (snd (allocate (\<lambda>_. 0) (ImprovisedMemoryManager 10) ''X'' (-2) False))
           ''G'' 5 False))
         ''Y'' 7 False)) ''G'')"

section \<open>Properties\<close>

subsection \<open>Calls that cannot fail in the interpreter\<close>

text \<open>
  The index that \<open>_find_best_fit\<close> returns is an index of the block list, so
  \<open>self.blocks[best_idx]\<close> raises no \<open>IndexError\<close>.
\<close>

lemma find_best_fit_loop_range:
  "find_best_fit_loop st w idx rs best bs = Some i \<Longrightarrow>
   (\<forall>j. best = Some j \<longrightarrow> j < idx) \<Longrightarrow> i < idx + length rs"
proof (induction rs arbitrary: idx best bs)
  case Nil
  then show ?case by simp
next
  case (Cons r rs)
  show ?case
  proof (cases "is_free (st r) \<and> size_kb (st r) \<ge> w \<and>
         (case bs of None \<Rightarrow> True | Some b \<Rightarrow> size_kb (st r) < b)")
    case True
    with Cons.prems
    have "find_best_fit_loop st w (Suc idx) rs (Some idx) (Some (size_kb (st r))) = Some i"
      by simp
    from Cons.IH [OF this] show ?thesis by simp
  next
    case False
    with Cons.prems have "find_best_fit_loop st w (Suc idx) rs best bs = Some i"
      by auto
    from Cons.IH [OF this] Cons.prems(2) show ?thesis by (simp add: less_SucI)
  qed
qed

lemma find_best_fit_range: "find_best_fit s w = Some i \<Longrightarrow> i < length (blocks s)"
  using find_best_fit_loop_range [of "store s" w 0 "blocks s" None None i]
  by (simp add: find_best_fit_def)

subsection \<open>Reset\<close>

text \<open>
  C10.  \<open>reset\<close> with no capacity and \<open>reset\<close> with capacity 0 give the same state:
  the capacity is kept, the block sequence is one free block over the whole
  capacity, and the registry is empty.
\<close>

theorem reset_zero_same_as_no_argument:
  "reset s (Some 0) = reset s None
   \<and> total_memory (reset s None) = total_memory s
   \<and> block_list (reset s None) =
       [\<lparr>start = 0, size_kb = total_memory s, is_free = True, process_name = None\<rparr>]
   \<and> process_map (reset s None) = Map.empty"
  by (simp add: reset_def initialize_memory_def new_block_def block_list_def)

subsection \<open>Fragmentation ratio\<close>

text \<open>
  C9.  The fragmentation ratio is 0 when at most one block is free, and otherwise
  the quotient, as Python's division of ints returns it, of the number of free
  blocks less one by the number of all blocks; the call leaves the state as it is.
\<close>

theorem fragmentation_ratio_formula:
  "snd (get_fragmentation_ratio true_div s) = s \<and>
   fst (get_fragmentation_ratio true_div s) =
     (if length (filter is_free (block_list s)) \<le> 1 then 0
      else true_div (int (length (filter is_free (block_list s))) - 1)
             (int (length (block_list s))))"
  by (simp add: get_fragmentation_ratio_def Let_def block_list_def filter_map comp_def)

subsection \<open>Failed calls\<close>

text \<open>
  C4.  A call of \<open>allocate\<close>, \<open>deallocate\<close> or \<open>compact\<close> that reports failure
  returns its failure tuple with the message of that failure, and the state after
  the call is the state before it.
\<close>

theorem failed_calls_leave_state_unchanged:
  "(\<not> fst (fst (allocate lc s name requested use_buddy)) \<longrightarrow>
      snd (allocate lc s name requested use_buddy) = s \<and>
      (fst (allocate lc s name requested use_buddy)
         = (False, Msg_already_allocated name, None) \<or>
       fst (allocate lc s name requested use_buddy)
         = (False, Msg_no_suitable_block, None)))
   \<and> (\<not> fst (fst (deallocate s name)) \<longrightarrow>
      snd (deallocate s name) = s \<and> fst (deallocate s name) = (False, Msg_not_found name))
   \<and> (\<not> fst (fst (compact s)) \<longrightarrow>
      snd (compact s) = s \<and> fst (compact s) = (False, Msg_nothing_to_compact, 0))"
  by (auto simp: allocate_def deallocate_def compact_def Let_def
           split: option.splits prod.splits if_splits)

theorem failed_calls_leave_state_unchanged_witness:
  "\<not> fst (fst (allocate (\<lambda>_. 0) (ImprovisedMemoryManager 8) ''P'' 16 False))
   \<and> snd (allocate (\<lambda>_. 0) (ImprovisedMemoryManager 8) ''P'' 16 False)
       = ImprovisedMemoryManager 8
   \<and> \<not> fst (fst (deallocate (ImprovisedMemoryManager 8) ''P''))
   \<and> snd (deallocate (ImprovisedMemoryManager 8) ''P'') = ImprovisedMemoryManager 8
   \<and> \<not> fst (fst (compact (ImprovisedMemoryManager 8)))
   \<and> snd (compact (ImprovisedMemoryManager 8)) = ImprovisedMemoryManager 8"
proof -
  have a: "\<not> fst (fst (allocate (\<lambda>_. 0) (ImprovisedMemoryManager 8) ''P'' 16 False))"
    by (simp add: allocate_def ImprovisedMemoryManager_def initialize_memory_def new_block_def
        find_best_fit_def)
  have d: "\<not> fst (fst (deallocate (ImprovisedMemoryManager 8) ''P''))"
    by (simp add: deallocate_def ImprovisedMemoryManager_def initialize_memory_def new_block_def)
  have c: "\<not> fst (fst (compact (ImprovisedMemoryManager 8)))"
    by (simp add: compact_def ImprovisedMemoryManager_def initialize_memory_def new_block_def)
  from a d c
    failed_calls_leave_state_unchanged [of "\<lambda>_. 0" "ImprovisedMemoryManager 8" "''P''" 16 False]
  show ?thesis by blast
qed

subsection \<open>Capacities that are not positive\<close>

text \<open>
  C5, as the code has it.  Neither the constructor nor \<open>reset\<close> checks the capacity.
  For a capacity \<open>c \<le> 0\<close> the constructor establishes the state of capacity \<open>c\<close>
  with one free block of size \<open>c\<close>; \<open>reset\<close> does the same for \<open>c < 0\<close> and keeps the
  old capacity for \<open>c = 0\<close>.  No call reports an error.
\<close>

theorem nonpositive_capacity_is_accepted:
  "c \<le> 0 \<Longrightarrow>
     total_memory (ImprovisedMemoryManager c) = c
   \<and> block_list (ImprovisedMemoryManager c) =
       [\<lparr>start = 0, size_kb = c, is_free = True, process_name = None\<rparr>]
   \<and> process_map (ImprovisedMemoryManager c) = Map.empty
   \<and> total_memory (reset s (Some c)) = (if c = 0 then total_memory s else c)
   \<and> block_list (reset s (Some c)) =
       [\<lparr>start = 0, size_kb = (if c = 0 then total_memory s else c), is_free = True,
         process_name = None\<rparr>]
   \<and> process_map (reset s (Some c)) = Map.empty"
  by (simp add: ImprovisedMemoryManager_def reset_def initialize_memory_def new_block_def
      block_list_def)

theorem nonpositive_capacity_is_accepted_witness:
  "(-5 :: int) \<le> 0
   \<and> total_memory (ImprovisedMemoryManager (-5)) = -5
   \<and> total_memory (reset (ImprovisedMemoryManager 8) (Some (-5))) = -5"
  using nonpositive_capacity_is_accepted [of "-5" "ImprovisedMemoryManager 8"]
  by simp

text \<open>
  The claim of the specification, that such a capacity is refused, fails at -5:
  the constructor and \<open>reset\<close> both establish a state of capacity -5.
\<close>

theorem nonpositive_capacity_counterexample:
  "total_memory (ImprovisedMemoryManager (-5)) = -5
   \<and> block_list (ImprovisedMemoryManager (-5)) =
       [\<lparr>start = 0, size_kb = -5, is_free = True, process_name = None\<rparr>]
   \<and> total_memory (reset (ImprovisedMemoryManager 8) (Some (-5))) = -5
   \<and> block_list (reset (ImprovisedMemoryManager 8) (Some (-5))) =
       [\<lparr>start = 0, size_kb = -5, is_free = True, process_name = None\<rparr>]"
  by (simp add: ImprovisedMemoryManager_def reset_def initialize_memory_def new_block_def
      block_list_def)

subsection \<open>Rounding to a power of two\<close>

text \<open>
  When \<open>math.ceil(math.log2(n))\<close> is the exact ceiling of the binary logarithm, the
  rounded size is the least power of two that is at least the requested size.
\<close>

lemma round_to_power_of_2_exact:
  assumes exact: "\<And>n. 0 < n \<Longrightarrow> n \<le> 2 ^ lc n \<and> (\<forall>k. n \<le> 2 ^ k \<longrightarrow> lc n \<le> k)"
  shows "requested \<le> round_to_power_of_2 lc requested"
    and "\<exists>k. round_to_power_of_2 lc requested = 2 ^ k"
    and "requested \<le> 2 ^ k \<Longrightarrow> round_to_power_of_2 lc requested \<le> 2 ^ k"
proof -
  show "requested \<le> round_to_power_of_2 lc requested"
    using exact [of requested] by (simp add: round_to_power_of_2_def)
  show "\<exists>k. round_to_power_of_2 lc requested = 2 ^ k"
    by (cases "requested \<le> 0") (auto simp: round_to_power_of_2_def intro: exI [of _ 0])
  show "round_to_power_of_2 lc requested \<le> 2 ^ k" if "requested \<le> 2 ^ k"
  proof (cases "requested \<le> 0")
    case True
    then show ?thesis by (simp add: round_to_power_of_2_def)
  next
    case False
    with exact [of requested] that have "lc requested \<le> k" by simp
    then have "(2::int) ^ lc requested \<le> 2 ^ k" by (simp add: power_increasing)
    with False show ?thesis by (simp add: round_to_power_of_2_def)
  qed
qed

text \<open>
  C7, at the input where the code departs from it.  \<open>math.log2\<close> works on
  double-precision floats.  The integer \<open>2^53 + 1\<close> has no double of its own: it is
  converted to \<open>2^53\<close>, whose logarithm is \<open>53.0\<close>, so \<open>math.ceil(math.log2(2^53 + 1))\<close>
  is 53.  The rounded size is then \<open>2^53\<close>, below the requested size.
\<close>

theorem round_to_power_of_2_below_request:
  "lc (2 ^ 53 + 1) = 53 \<Longrightarrow>
     round_to_power_of_2 lc (2 ^ 53 + 1) = 2 ^ 53
   \<and> round_to_power_of_2 lc (2 ^ 53 + 1) < 2 ^ 53 + 1"
  by (simp add: round_to_power_of_2_def)

theorem round_to_power_of_2_below_request_witness:
  "(\<lambda>_. 53 :: nat) (2 ^ 53 + 1 :: int) = 53
   \<and> round_to_power_of_2 (\<lambda>_. 53) (2 ^ 53 + 1) = 2 ^ 53
   \<and> round_to_power_of_2 (\<lambda>_. 53) (2 ^ 53 + 1) < 2 ^ 53 + 1"
  using round_to_power_of_2_below_request [of "\<lambda>_. 53"]
  by simp

lemma find_best_fit_loop_spec:
  "(best = None \<longleftrightarrow> bs = None) \<Longrightarrow>
   (case find_best_fit_loop st w idx rs best bs of
      None \<Rightarrow> best = None \<and> (\<forall>r\<in>set rs. \<not> fits st w r)
    | Some i \<Rightarrow>
        (best = Some i \<and> (\<forall>b. bs = Some b \<longrightarrow> (\<forall>r\<in>set rs. fits st w r \<longrightarrow> b \<le> size_kb (st r))))
        \<or> (\<exists>k<length rs. i = idx + k \<and> fits st w (rs ! k)
              \<and> (\<forall>b. bs = Some b \<longrightarrow> size_kb (st (rs ! k)) < b)
              \<and> (\<forall>j<length rs. fits st w (rs ! j) \<longrightarrow>
                     size_kb (st (rs ! k)) \<le> size_kb (st (rs ! j))
                     \<and> (size_kb (st (rs ! j)) = size_kb (st (rs ! k)) \<longrightarrow> k \<le> j))))"
proof (induction rs arbitrary: idx best bs)
  case Nil
  then show ?case by (cases best) auto
next
  case (Cons r rs)
  let ?upd = "is_free (st r) \<and> size_kb (st r) \<ge> w \<and>
         (case bs of None \<Rightarrow> True | Some b \<Rightarrow> size_kb (st r) < b)"
  show ?case
  proof (cases ?upd)
    case True
    have eq: "find_best_fit_loop st w idx (r # rs) best bs
          = find_best_fit_loop st w (Suc idx) rs (Some idx) (Some (size_kb (st r)))"
      using True by simp
    have fr: "fits st w r" using True by (simp add: fits_def)
    have lt: "\<forall>b. bs = Some b \<longrightarrow> size_kb (st r) < b" using True by auto
    from Cons.IH [of "Some idx" "Some (size_kb (st r))" "Suc idx"]
    obtain i where res: "find_best_fit_loop st w (Suc idx) rs (Some idx) (Some (size_kb (st r))) = Some i"
      and dj: "(i = idx \<and> (\<forall>x\<in>set rs. fits st w x \<longrightarrow> size_kb (st r) \<le> size_kb (st x)))
        \<or> (\<exists>k<length rs. i = Suc idx + k \<and> fits st w (rs ! k)
              \<and> size_kb (st (rs ! k)) < size_kb (st r)
              \<and> (\<forall>j<length rs. fits st w (rs ! j) \<longrightarrow>
                     size_kb (st (rs ! k)) \<le> size_kb (st (rs ! j))
                     \<and> (size_kb (st (rs ! j)) = size_kb (st (rs ! k)) \<longrightarrow> k \<le> j)))"
      by (auto split: option.splits)
    from dj show ?thesis
    proof
      assume a: "i = idx \<and> (\<forall>x\<in>set rs. fits st w x \<longrightarrow> size_kb (st r) \<le> size_kb (st x))"
      have "\<forall>j<length (r # rs). fits st w ((r # rs) ! j) \<longrightarrow>
                     size_kb (st r) \<le> size_kb (st ((r # rs) ! j))"
        using a by (auto simp: nth_Cons split: nat.splits)
      with a fr lt have "\<exists>k<length (r # rs). i = idx + k \<and> fits st w ((r # rs) ! k)
              \<and> (\<forall>b. bs = Some b \<longrightarrow> size_kb (st ((r # rs) ! k)) < b)
              \<and> (\<forall>j<length (r # rs). fits st w ((r # rs) ! j) \<longrightarrow>
                     size_kb (st ((r # rs) ! k)) \<le> size_kb (st ((r # rs) ! j))
                     \<and> (size_kb (st ((r # rs) ! j)) = size_kb (st ((r # rs) ! k)) \<longrightarrow> k \<le> j))"
        by (intro exI [of _ 0]) simp
      then show ?thesis unfolding eq res by simp
    next
      assume "\<exists>k<length rs. i = Suc idx + k \<and> fits st w (rs ! k)
              \<and> size_kb (st (rs ! k)) < size_kb (st r)
              \<and> (\<forall>j<length rs. fits st w (rs ! j) \<longrightarrow>
                     size_kb (st (rs ! k)) \<le> size_kb (st (rs ! j))
                     \<and> (size_kb (st (rs ! j)) = size_kb (st (rs ! k)) \<longrightarrow> k \<le> j))"
      then obtain k where k: "k < length rs" "i = Suc idx + k" "fits st w (rs ! k)"
         "size_kb (st (rs ! k)) < size_kb (st r)"
         "\<forall>j<length rs. fits st w (rs ! j) \<longrightarrow>
                     size_kb (st (rs ! k)) \<le> size_kb (st (rs ! j))
                     \<and> (size_kb (st (rs ! j)) = size_kb (st (rs ! k)) \<longrightarrow> k \<le> j)"
        by blast
      have "\<forall>j<length (r # rs). fits st w ((r # rs) ! j) \<longrightarrow>
                     size_kb (st (rs ! k)) \<le> size_kb (st ((r # rs) ! j))
                     \<and> (size_kb (st ((r # rs) ! j)) = size_kb (st (rs ! k)) \<longrightarrow> Suc k \<le> j)"
        using k(4,5) by (auto simp: nth_Cons split: nat.splits)
      with k lt have "\<exists>k<length (r # rs). i = idx + k \<and> fits st w ((r # rs) ! k)
              \<and> (\<forall>b. bs = Some b \<longrightarrow> size_kb (st ((r # rs) ! k)) < b)
              \<and> (\<forall>j<length (r # rs). fits st w ((r # rs) ! j) \<longrightarrow>
                     size_kb (st ((r # rs) ! k)) \<le> size_kb (st ((r # rs) ! j))
                     \<and> (size_kb (st ((r # rs) ! j)) = size_kb (st ((r # rs) ! k)) \<longrightarrow> k \<le> j))"
        by (intro exI [of _ "Suc k"]) auto
      then show ?thesis unfolding eq res by simp
    qed
  next
    case False
    have eq: "find_best_fit_loop st w idx (r # rs) best bs
          = find_best_fit_loop st w (Suc idx) rs best bs"
      using False by auto
    have nf: "fits st w r \<Longrightarrow> \<exists>b. bs = Some b \<and> b \<le> size_kb (st r)"
      using False by (auto simp: fits_def split: option.splits)
    note IH = Cons.IH [OF Cons.prems, of "Suc idx"]
    show ?thesis
    proof (cases "find_best_fit_loop st w (Suc idx) rs best bs")
      case None
      with IH have "best = None \<and> (\<forall>r\<in>set rs. \<not> fits st w r)" by simp
      moreover from this Cons.prems nf have "\<not> fits st w r" by auto
      ultimately show ?thesis unfolding eq None by simp
    next
      case (Some i)
      with IH have dj: "(best = Some i \<and> (\<forall>b. bs = Some b \<longrightarrow> (\<forall>r\<in>set rs. fits st w r \<longrightarrow> b \<le> size_kb (st r))))
        \<or> (\<exists>k<length rs. i = Suc idx + k \<and> fits st w (rs ! k)
              \<and> (\<forall>b. bs = Some b \<longrightarrow> size_kb (st (rs ! k)) < b)
              \<and> (\<forall>j<length rs. fits st w (rs ! j) \<longrightarrow>
                     size_kb (st (rs ! k)) \<le> size_kb (st (rs ! j))
                     \<and> (size_kb (st (rs ! j)) = size_kb (st (rs ! k)) \<longrightarrow> k \<le> j)))"
        by simp
      from dj show ?thesis
      proof
        assume a: "best = Some i \<and> (\<forall>b. bs = Some b \<longrightarrow> (\<forall>r\<in>set rs. fits st w r \<longrightarrow> b \<le> size_kb (st r)))"
        with nf have "best = Some i \<and> (\<forall>b. bs = Some b \<longrightarrow> (\<forall>x\<in>set (r # rs). fits st w x \<longrightarrow> b \<le> size_kb (st x)))"
          by auto
        then show ?thesis unfolding eq Some by simp
      next
        assume "\<exists>k<length rs. i = Suc idx + k \<and> fits st w (rs ! k)
              \<and> (\<forall>b. bs = Some b \<longrightarrow> size_kb (st (rs ! k)) < b)
              \<and> (\<forall>j<length rs. fits st w (rs ! j) \<longrightarrow>
                     size_kb (st (rs ! k)) \<le> size_kb (st (rs ! j))
                     \<and> (size_kb (st (rs ! j)) = size_kb (st (rs ! k)) \<longrightarrow> k \<le> j))"
        then obtain k where k: "k < length rs" "i = Suc idx + k" "fits st w (rs ! k)"
           "\<forall>b. bs = Some b \<longrightarrow> size_kb (st (rs ! k)) < b"
           "\<forall>j<length rs. fits st w (rs ! j) \<longrightarrow>
                     size_kb (st (rs ! k)) \<le> size_kb (st (rs ! j))
                     \<and> (size_kb (st (rs ! j)) = size_kb (st (rs ! k)) \<longrightarrow> k \<le> j)"
          by blast
        have r0: "fits st w r \<Longrightarrow> size_kb (st (rs ! k)) < size_kb (st r)"
          using nf k(4) by fastforce
        have "\<forall>j<length (r # rs). fits st w ((r # rs) ! j) \<longrightarrow>
                     size_kb (st (rs ! k)) \<le> size_kb (st ((r # rs) ! j))
                     \<and> (size_kb (st ((r # rs) ! j)) = size_kb (st (rs ! k)) \<longrightarrow> Suc k \<le> j)"
          using k(5) r0 by (auto simp: nth_Cons split: nat.splits)
        with k have "\<exists>k<length (r # rs). i = idx + k \<and> fits st w ((r # rs) ! k)
              \<and> (\<forall>b. bs = Some b \<longrightarrow> size_kb (st ((r # rs) ! k)) < b)
              \<and> (\<forall>j<length (r # rs). fits st w ((r # rs) ! j) \<longrightarrow>
                     size_kb (st ((r # rs) ! k)) \<le> size_kb (st ((r # rs) ! j))
                     \<and> (size_kb (st ((r # rs) ! j)) = size_kb (st ((r # rs) ! k)) \<longrightarrow> k \<le> j))"
          by (intro exI [of _ "Suc k"]) auto
        then show ?thesis unfolding eq Some by simp
      qed
    qed
  qed
qed

lemma find_best_fit_None:
  "find_best_fit s w = None \<longleftrightarrow> (\<forall>r\<in>set (blocks s). \<not> fits (store s) w r)"
  using find_best_fit_loop_spec [where best = None and bs = None and st = "store s" and w = w and idx = 0 and rs = "blocks s"]
  by (auto simp: find_best_fit_def split: option.splits dest: nth_mem)

lemma find_best_fit_Some:
  "find_best_fit s w = Some i \<Longrightarrow>
     i < length (blocks s) \<and> fits (store s) w (blocks s ! i)
     \<and> (\<forall>j<length (blocks s). fits (store s) w (blocks s ! j) \<longrightarrow>
           size_kb (store s (blocks s ! i)) \<le> size_kb (store s (blocks s ! j))
           \<and> (size_kb (store s (blocks s ! j)) = size_kb (store s (blocks s ! i)) \<longrightarrow> i \<le> j))"
  using find_best_fit_loop_spec [where best = None and bs = None and st = "store s" and w = w and idx = 0 and rs = "blocks s"]
  by (auto simp: find_best_fit_def split: option.splits)

subsection \<open>Coalescing\<close>

lemma frees_resized_refl: "frees_resized st st"
  by (simp add: frees_resized_def)

lemma frees_resized_trans:
  "frees_resized st st' \<Longrightarrow> frees_resized st' st'' \<Longrightarrow> frees_resized st st''"
  by (simp add: frees_resized_def)

lemma merge_run_spec:
  "is_free (st cur) \<Longrightarrow>
   \<exists>pre. rs = pre @ snd (merge_run st cur rs) \<and> (\<forall>r\<in>set pre. is_free (st r))
     \<and> (\<forall>r. r \<noteq> cur \<longrightarrow> fst (merge_run st cur rs) r = st r)
     \<and> frees_resized st (fst (merge_run st cur rs))
     \<and> (case snd (merge_run st cur rs) of [] \<Rightarrow> True | x # _ \<Rightarrow> \<not> is_free (st x))"
proof (induction rs arbitrary: st)
  case Nil
  then show ?case by (simp add: frees_resized_refl)
next
  case (Cons r rs)
  show ?case
  proof (cases "is_free (st r)")
    case True
    let ?st2 = "st(cur := (st cur)\<lparr>size_kb := size_kb (st cur) + size_kb (st r)\<rparr>)"
    have eq: "merge_run st cur (r # rs) = merge_run ?st2 cur rs"
      using True by simp
    have fr2: "frees_resized st ?st2"
      using Cons.prems by (simp add: frees_resized_def)
    have "is_free (?st2 cur)" using Cons.prems by simp
    with Cons.IH [of ?st2] obtain pre where pre:
      "rs = pre @ snd (merge_run ?st2 cur rs)" "\<forall>r\<in>set pre. is_free (?st2 r)"
      "\<forall>x. x \<noteq> cur \<longrightarrow> fst (merge_run ?st2 cur rs) x = ?st2 x"
      "frees_resized ?st2 (fst (merge_run ?st2 cur rs))"
      "case snd (merge_run ?st2 cur rs) of [] \<Rightarrow> True | x # _ \<Rightarrow> \<not> is_free (?st2 x)"
      by blast
    have a: "r # rs = (r # pre) @ snd (merge_run st cur (r # rs))"
      using pre(1) eq by simp
    have b: "\<forall>x\<in>set (r # pre). is_free (st x)"
      using pre(2) True Cons.prems by (auto split: if_splits)
    have c: "\<forall>x. x \<noteq> cur \<longrightarrow> fst (merge_run st cur (r # rs)) x = st x"
      using pre(3) eq by simp
    have d: "frees_resized st (fst (merge_run st cur (r # rs)))"
      using frees_resized_trans [OF fr2 pre(4)] eq by simp
    have e: "case snd (merge_run st cur (r # rs)) of [] \<Rightarrow> True | x # _ \<Rightarrow> \<not> is_free (st x)"
      using pre(5) eq Cons.prems by (auto split: list.splits if_splits)
    from a b c d e show ?thesis by blast
  next
    case False
    then have "merge_run st cur (r # rs) = (st, r # rs)" by simp
    with False show ?thesis
      by (simp add: frees_resized_refl)
  qed
qed

lemma coalesce_from_not_free: "\<not> is_free c \<Longrightarrow> coalesce_from c xs = c # coalesce xs"
  by (cases xs) (simp_all add: coalesce_def)

lemma coalesce_from_next_not_free:
  "(case xs of [] \<Rightarrow> True | x # _ \<Rightarrow> \<not> is_free x) \<Longrightarrow> coalesce_from c xs = c # coalesce xs"
  by (cases xs) (simp_all add: coalesce_def)

lemma merge_run_coalesce:
  "is_free (st cur) \<Longrightarrow> cur \<notin> set rs \<Longrightarrow>
   coalesce_from (st cur) (map st rs)
     = fst (merge_run st cur rs) cur # coalesce (map st (snd (merge_run st cur rs)))"
proof (induction rs arbitrary: st)
  case Nil
  then show ?case by (simp add: coalesce_def)
next
  case (Cons r rs)
  show ?case
  proof (cases "is_free (st r)")
    case True
    let ?st2 = "st(cur := (st cur)\<lparr>size_kb := size_kb (st cur) + size_kb (st r)\<rparr>)"
    have eq: "merge_run st cur (r # rs) = merge_run ?st2 cur rs"
      using True by simp
    have m: "map ?st2 rs = map st rs"
      using Cons.prems(2) by auto
    have m': "map ?st2 (snd (merge_run ?st2 cur rs)) = map st (snd (merge_run ?st2 cur rs))"
    proof -
      have "is_free (?st2 cur)" using Cons.prems by simp
      with merge_run_spec [of ?st2 cur rs] obtain pre where "rs = pre @ snd (merge_run ?st2 cur rs)"
        by blast
      then have "set (snd (merge_run ?st2 cur rs)) \<subseteq> set rs"
        by (metis Un_upper2 set_append)
      with Cons.prems(2) have "cur \<notin> set (snd (merge_run ?st2 cur rs))" by auto
      then show ?thesis by auto
    qed
    have "coalesce_from (?st2 cur) (map ?st2 rs)
       = fst (merge_run ?st2 cur rs) cur # coalesce (map ?st2 (snd (merge_run ?st2 cur rs)))"
      by (rule Cons.IH) (use Cons.prems in simp_all)
    then have "coalesce_from (?st2 cur) (map st rs)
       = fst (merge_run ?st2 cur rs) cur # coalesce (map st (snd (merge_run ?st2 cur rs)))"
      unfolding m m' .
    then show ?thesis
      unfolding eq using True Cons.prems(1) by simp
  next
    case False
    then show ?thesis
      using Cons.prems by (simp add: coalesce_def)
  qed
qed

lemma merge_loop_spec:
  "distinct (merged @ rs) \<Longrightarrow>
     map (fst (merge_loop st rs merged)) (snd (merge_loop st rs merged))
       = map st merged @ coalesce (map st rs)
   \<and> frees_resized st (fst (merge_loop st rs merged))
   \<and> distinct (snd (merge_loop st rs merged))
   \<and> set (snd (merge_loop st rs merged)) \<subseteq> set merged \<union> set rs
   \<and> (\<forall>r\<in>set merged \<union> set rs. \<not> is_free (st r) \<longrightarrow> r \<in> set (snd (merge_loop st rs merged)))
   \<and> (\<forall>r. r \<notin> set rs \<longrightarrow> fst (merge_loop st rs merged) r = st r)"
proof (induction st rs merged rule: merge_loop.induct)
  case (1 st merged)
  then show ?case by (simp add: coalesce_def frees_resized_refl)
next
  case (2 st cur rest merged)
  show ?case
  proof (cases "is_free (st cur)")
    case True
    let ?st' = "fst (merge_run st cur rest)"
    let ?rest' = "snd (merge_run st cur rest)"
    have eq: "merge_loop st (cur # rest) merged = merge_loop ?st' ?rest' (merged @ [cur])"
      using True by simp
    from True merge_run_spec [of st cur rest] obtain pre where pre:
      "rest = pre @ ?rest'" "\<forall>r\<in>set pre. is_free (st r)"
      "\<forall>r. r \<noteq> cur \<longrightarrow> ?st' r = st r" "frees_resized st ?st'"
      by blast
    have sub: "set ?rest' \<subseteq> set rest"
      using pre(1) by (metis Un_upper2 set_append)
    have d': "distinct ((merged @ [cur]) @ ?rest')"
    proof -
      have "distinct (merged @ cur # pre @ ?rest')" using "2.prems" pre(1) by simp
      then show ?thesis by auto
    qed
    note IH = "2.IH"(1) [OF True d']
    have curnot: "cur \<notin> set rest" "cur \<notin> set merged" using "2.prems" by auto
    have m1: "map ?st' merged = map st merged"
      using pre(3) curnot by auto
    have m2: "map ?st' ?rest' = map st ?rest'"
      using pre(3) curnot sub by auto
    have co: "coalesce (map st (cur # rest)) = ?st' cur # coalesce (map st ?rest')"
      using merge_run_coalesce [of st cur rest] True curnot(1) by (simp add: coalesce_def)
    have a: "map (fst (merge_loop st (cur # rest) merged)) (snd (merge_loop st (cur # rest) merged))
       = map st merged @ coalesce (map st (cur # rest))"
      unfolding eq co using IH m1 m2 by simp
    have b: "frees_resized st (fst (merge_loop st (cur # rest) merged))"
      unfolding eq using IH pre(4) frees_resized_trans by blast
    have c: "distinct (snd (merge_loop st (cur # rest) merged))"
      unfolding eq using IH by simp
    have d: "set (snd (merge_loop st (cur # rest) merged)) \<subseteq> set merged \<union> set (cur # rest)"
      unfolding eq using IH sub by auto
    have e: "\<forall>r\<in>set merged \<union> set (cur # rest). \<not> is_free (st r) \<longrightarrow>
                r \<in> set (snd (merge_loop st (cur # rest) merged))"
    proof (intro ballI impI)
      fix r assume r: "r \<in> set merged \<union> set (cur # rest)" "\<not> is_free (st r)"
      then have "r \<noteq> cur" using True by auto
      with r pre(1,2) have "r \<in> set (merged @ [cur]) \<union> set ?rest'"
        by (metis Un_iff set_ConsD set_append)
      moreover have "\<not> is_free (?st' r)" using r(2) pre(4) by (simp add: frees_resized_def)
      ultimately show "r \<in> set (snd (merge_loop st (cur # rest) merged))"
        unfolding eq using IH by blast
    qed
    have f: "\<forall>r. r \<notin> set (cur # rest) \<longrightarrow> fst (merge_loop st (cur # rest) merged) r = st r"
      unfolding eq using IH pre(3) sub by auto
    from a b c d e f show ?thesis by blast
  next
    case False
    have eq: "merge_loop st (cur # rest) merged = merge_loop st rest (merged @ [cur])"
      using False by simp
    have d': "distinct ((merged @ [cur]) @ rest)" using "2.prems" by simp
    note IH = "2.IH"(2) [OF False d']
    have st_cur: "fst (merge_loop st rest (merged @ [cur])) cur = st cur"
      using IH "2.prems" by auto
    have a: "map (fst (merge_loop st (cur # rest) merged)) (snd (merge_loop st (cur # rest) merged))
       = map st merged @ coalesce (map st (cur # rest))"
      unfolding eq using IH False by (simp add: coalesce_def coalesce_from_not_free)
    from a IH show ?thesis unfolding eq by auto
  qed
qed

lemma coalesce_from_not_Nil [simp]: "coalesce_from c xs \<noteq> []"
  by (induction xs arbitrary: c) auto

lemma hd_coalesce_from_free: "is_free (hd (coalesce_from c xs)) = is_free c"
  by (induction xs arbitrary: c) auto

lemma coalesce_from_naf: "naf (c # xs) \<Longrightarrow> coalesce_from c xs = c # xs"
  by (induction xs arbitrary: c) auto

lemma coalesce_naf: "naf xs \<Longrightarrow> coalesce xs = xs"
  by (cases xs) (simp_all add: coalesce_def coalesce_from_naf)

lemma naf_coalesce_from: "naf (coalesce_from c xs)"
proof (induction xs arbitrary: c)
  case Nil
  then show ?case by simp
next
  case (Cons x xs)
  note hd = hd_coalesce_from_free
  show ?case
  proof (cases "is_free c \<and> is_free x")
    case True
    then show ?thesis using Cons.IH by simp
  next
    case False
    obtain y ys where y: "coalesce_from x xs = y # ys" by (cases "coalesce_from x xs") auto
    with hd [of x xs] have fy: "is_free y = is_free x" by simp
    have eq: "coalesce_from c (x # xs) = c # y # ys"
      using False y by auto
    have "naf (y # ys)" using Cons.IH [of x] y by simp
    with False fy show ?thesis unfolding eq by auto
  qed
qed

lemma naf_coalesce: "naf (coalesce xs)"
  by (cases xs) (simp_all add: coalesce_def naf_coalesce_from)

lemma chain_coalesce_from:
  "chain a (c # xs) b \<Longrightarrow> chain a (coalesce_from c xs) b"
proof (induction xs arbitrary: a c)
  case Nil
  then show ?case by simp
next
  case (Cons x xs)
  show ?case
  proof (cases "is_free c \<and> is_free x")
    case True
    have "chain a (c\<lparr>size_kb := size_kb c + size_kb x\<rparr> # xs) b"
      using Cons.prems by (auto simp: block_end_def algebra_simps)
    from Cons.IH [OF this] True show ?thesis by simp
  next
    case False
    then have eq: "coalesce_from c (x # xs) = c # coalesce_from x xs"
      by auto
    have "chain (block_end c) (x # xs) b" using Cons.prems by simp
    from Cons.IH [OF this] Cons.prems show ?thesis unfolding eq by simp
  qed
qed

lemma chain_coalesce: "chain a xs b \<Longrightarrow> chain a (coalesce xs) b"
  by (cases xs) (simp_all add: coalesce_def chain_coalesce_from del: chain.simps(2))

lemma coalesce_eq_Nil [simp]: "coalesce xs = [] \<longleftrightarrow> xs = []"
proof (cases xs)
  case Nil
  then show ?thesis by (simp add: coalesce_def)
next
  case (Cons x ys)
  then show ?thesis by (simp add: coalesce_def)
qed

lemma coalesce_append_not_free:
  "xs \<noteq> [] \<Longrightarrow> \<not> is_free (last xs) \<Longrightarrow> naf xs \<Longrightarrow> coalesce (xs @ ys) = xs @ coalesce ys"
proof (induction xs)
  case Nil
  then show ?case by simp
next
  case (Cons x xs)
  show ?case
  proof (cases xs)
    case Nil
    with Cons.prems show ?thesis
      by (simp add: coalesce_def coalesce_from_not_free)
  next
    case (Cons y zs)
    with Cons.prems have nf: "\<not> (is_free x \<and> is_free y)" and rest: "naf xs"
      and l: "\<not> is_free (last xs)" and ne: "xs \<noteq> []"
      by simp_all
    have "coalesce ((x # xs) @ ys) = x # coalesce (xs @ ys)"
      using nf Cons by (auto simp: coalesce_def)
    with Cons.IH [OF ne l rest] show ?thesis by simp
  qed
qed

subsection \<open>The loop of compaction\<close>

lemma relocate_length [simp]: "length (relocate a bs) = length bs"
  by (induction bs arbitrary: a) auto

lemma compact_loop_spec:
  assumes "\<forall>b\<in>set bs. b < next_ref s"
  shows "case compact_loop s bs nb addr of (s', nb', addr') \<Rightarrow>
      total_memory s' = total_memory s \<and> blocks s' = blocks s
    \<and> next_ref s' = next_ref s + length bs
    \<and> nb' = nb @ [next_ref s ..< next_ref s + length bs]
    \<and> addr' = addr + sum_list (map (\<lambda>b. size_kb (store s b)) bs)
    \<and> (\<forall>r. r < next_ref s \<longrightarrow> store s' r = store s r)
    \<and> map (store s') [next_ref s ..< next_ref s + length bs] = relocate addr (map (store s) bs)
    \<and> (\<forall>k. k \<notin> (\<lambda>b. process_name (store s b)) ` set bs \<longrightarrow> process_map s' k = process_map s k)
    \<and> (distinct (map (\<lambda>b. process_name (store s b)) bs) \<longrightarrow>
         (\<forall>i<length bs. process_map s' (process_name (store s (bs ! i))) = Some (next_ref s + i)))"
  using assms
proof (induction bs arbitrary: s nb addr)
  case Nil
  then show ?case by simp
next
  case (Cons b bs)
  let ?n = "next_ref s"
  let ?nbk = "\<lparr>start = addr, size_kb = size_kb (store s b),
                      is_free = False, process_name = process_name (store s b)\<rparr>"
  let ?s2 = "s\<lparr>store := (store s)(?n := ?nbk), next_ref := Suc ?n,
               process_map := (process_map s)(process_name (store s b) \<mapsto> ?n)\<rparr>"
  have blt: "b < ?n" and bslt: "\<forall>x\<in>set bs. x < ?n" using Cons.prems by auto
  have sb: "((store s)(?n := ?nbk)) b = store s b" using blt by simp
  have eq: "compact_loop s (b # bs) nb addr
      = compact_loop ?s2 bs (nb @ [?n]) (addr + size_kb (store s b))"
    using sb by (simp add: new_block_def)
  have old: "\<And>x. x < ?n \<Longrightarrow> store ?s2 x = store s x" by simp
  have mp: "map (\<lambda>x. size_kb (store ?s2 x)) bs = map (\<lambda>x. size_kb (store s x)) bs"
    and mv: "map (store ?s2) bs = map (store s) bs"
    and mn: "map (\<lambda>x. process_name (store ?s2 x)) bs = map (\<lambda>x. process_name (store s x)) bs"
    using bslt by auto
  have img: "(\<lambda>x. process_name (store ?s2 x)) ` set bs = (\<lambda>x. process_name (store s x)) ` set bs"
    using bslt by (intro image_cong) auto
  have lt2: "\<forall>x\<in>set bs. x < next_ref ?s2" using bslt by auto
  obtain s' nb' addr' where res: "compact_loop ?s2 bs (nb @ [?n]) (addr + size_kb (store s b)) = (s', nb', addr')"
    by (cases "compact_loop ?s2 bs (nb @ [?n]) (addr + size_kb (store s b))") auto
  from Cons.IH [OF lt2, of "nb @ [?n]" "addr + size_kb (store s b)"] res
  have IH: "total_memory s' = total_memory s" "blocks s' = blocks s"
    "next_ref s' = Suc ?n + length bs"
    "nb' = (nb @ [?n]) @ [Suc ?n ..< Suc ?n + length bs]"
    "addr' = addr + size_kb (store s b) + sum_list (map (\<lambda>x. size_kb (store s x)) bs)"
    "\<forall>r. r < Suc ?n \<longrightarrow> store s' r = store ?s2 r"
    "map (store s') [Suc ?n ..< Suc ?n + length bs] = relocate (addr + size_kb (store s b)) (map (store s) bs)"
    "\<forall>k. k \<notin> (\<lambda>x. process_name (store s x)) ` set bs \<longrightarrow> process_map s' k = process_map ?s2 k"
    "distinct (map (\<lambda>x. process_name (store s x)) bs) \<longrightarrow>
         (\<forall>i<length bs. process_map s' (process_name (store ?s2 (bs ! i))) = Some (Suc ?n + i))"
    unfolding mp mv mn img by simp_all
  have upt: "[?n ..< ?n + length (b # bs)] = ?n # [Suc ?n ..< Suc ?n + length bs]"
  proof -
    have "?n < ?n + length (b # bs)" by simp
    from upt_conv_Cons [OF this] show ?thesis by simp
  qed
  have c1: "total_memory s' = total_memory s \<and> blocks s' = blocks s
     \<and> next_ref s' = ?n + length (b # bs)"
    using IH(1-3) by simp
  have c2: "nb' = nb @ [?n ..< ?n + length (b # bs)]"
    unfolding upt using IH(4) by simp
  have c3: "addr' = addr + sum_list (map (\<lambda>x. size_kb (store s x)) (b # bs))"
    using IH(5) by simp
  have c4: "\<forall>r. r < ?n \<longrightarrow> store s' r = store s r"
    using IH(6) by simp
  have sn: "store s' ?n = ?nbk" using IH(6) by simp
  have c5: "map (store s') [?n ..< ?n + length (b # bs)] = relocate addr (map (store s) (b # bs))"
    unfolding upt using IH(7) sn by simp
  have c6: "\<forall>k. k \<notin> (\<lambda>x. process_name (store s x)) ` set (b # bs) \<longrightarrow>
                process_map s' k = process_map s k"
    using IH(8) by simp
  have c7: "distinct (map (\<lambda>x. process_name (store s x)) (b # bs)) \<longrightarrow>
         (\<forall>i<length (b # bs). process_map s' (process_name (store s ((b # bs) ! i))) = Some (?n + i))"
  proof (intro impI allI)
    fix i
    assume d: "distinct (map (\<lambda>x. process_name (store s x)) (b # bs))" and i: "i < length (b # bs)"
    show "process_map s' (process_name (store s ((b # bs) ! i))) = Some (?n + i)"
    proof (cases i)
      case 0
      have "process_name (store s b) \<notin> (\<lambda>x. process_name (store s x)) ` set bs"
        using d by auto
      with IH(8) have "process_map s' (process_name (store s b)) = process_map ?s2 (process_name (store s b))"
        by blast
      with 0 show ?thesis by simp
    next
      case (Suc j)
      with i have j: "j < length bs" by simp
      then have "bs ! j < ?n" using bslt nth_mem by blast
      then have "store ?s2 (bs ! j) = store s (bs ! j)" by simp
      with IH(9) d j have "process_map s' (process_name (store s (bs ! j))) = Some (Suc ?n + j)"
        by auto
      with Suc show ?thesis by simp
    qed
  qed
  from c1 c2 c3 c4 c5 c6 c7 show ?case unfolding eq res by simp
qed

subsection \<open>What each call does to the fields of the state\<close>

lemma initialize_memory_fields:
  "total_memory (initialize_memory s) = total_memory s"
  "blocks (initialize_memory s) = [next_ref s]"
  "process_map (initialize_memory s) = Map.empty"
  "next_ref (initialize_memory s) = Suc (next_ref s)"
  "store (initialize_memory s) (next_ref s) =
     \<lparr>start = 0, size_kb = total_memory s, is_free = True, process_name = None\<rparr>"
  by (simp_all add: initialize_memory_def new_block_def)

lemma allocate_duplicate:
  "Some name \<in> dom (process_map s) \<Longrightarrow>
   allocate lc s name requested use_buddy = ((False, Msg_already_allocated name, None), s)"
  by (simp add: allocate_def)

lemma allocate_no_fit:
  "Some name \<notin> dom (process_map s) \<Longrightarrow>
   find_best_fit s (actual_size lc requested use_buddy) = None \<Longrightarrow>
   allocate lc s name requested use_buddy = ((False, Msg_no_suitable_block, None), s)"
  by (simp add: allocate_def actual_size_def)

lemma allocate_success:
  assumes "Some name \<notin> dom (process_map s)"
    and "find_best_fit s (actual_size lc requested use_buddy) = Some i"
  shows "allocate lc s name requested use_buddy =
     (let block = blocks s ! i;
                   old = store s block;
                   start_address = start old;
                   s1 =
                     (if size_kb old > actual_size lc requested use_buddy
                      then
                        case new_block \<lparr>start = start old, size_kb = actual_size lc requested use_buddy,
                                        is_free = False, process_name = Some name\<rparr> s of
                          (allocated_block, sa) \<Rightarrow>
                        case new_block \<lparr>start = start old + actual_size lc requested use_buddy,
                                        size_kb = size_kb old - actual_size lc requested use_buddy,
                                        is_free = True, process_name = None\<rparr> sa of
                          (remaining_block, sr) \<Rightarrow>
                            sr\<lparr>blocks :=
                                 list_insert (i + 1) remaining_block
                                   ((blocks sr)[i := allocated_block])\<rparr>
                      else
                        s\<lparr>store :=
                            (store s)(block := old\<lparr>is_free := False,
                                                   process_name := Some name\<rparr>)\<rparr>)
               in ((True, Msg_allocated name (actual_size lc requested use_buddy), Some start_address),
                   s1\<lparr>process_map :=
                        (process_map s1)(Some name \<mapsto> blocks s1 ! i)\<rparr>))"
  unfolding allocate_def actual_size_def [symmetric]
  using assms by (simp add: Let_def)

lemma allocate_split:
  assumes "Some name \<notin> dom (process_map s)"
    and "find_best_fit s (actual_size lc requested use_buddy) = Some i"
    and "actual_size lc requested use_buddy < size_kb (store s (blocks s ! i))"
  shows "fst (allocate lc s name requested use_buddy)
           = (True, Msg_allocated name (actual_size lc requested use_buddy),
              Some (start (store s (blocks s ! i))))"
    and "total_memory (snd (allocate lc s name requested use_buddy)) = total_memory s"
    and "next_ref (snd (allocate lc s name requested use_buddy)) = Suc (Suc (next_ref s))"
    and "blocks (snd (allocate lc s name requested use_buddy))
           = take i (blocks s) @ [next_ref s, Suc (next_ref s)] @ drop (Suc i) (blocks s)"
    and "store (snd (allocate lc s name requested use_buddy))
           = (store s)
               (next_ref s :=
                  \<lparr>start = start (store s (blocks s ! i)),
                   size_kb = actual_size lc requested use_buddy,
                   is_free = False, process_name = Some name\<rparr>,
                Suc (next_ref s) :=
                  \<lparr>start = start (store s (blocks s ! i)) + actual_size lc requested use_buddy,
                   size_kb = size_kb (store s (blocks s ! i)) - actual_size lc requested use_buddy,
                   is_free = True, process_name = None\<rparr>)"
    and "process_map (snd (allocate lc s name requested use_buddy))
           = (process_map s)(Some name \<mapsto> next_ref s)"
proof -
  have i: "i < length (blocks s)" using assms(2) by (rule find_best_fit_range)
  have ins: "list_insert (Suc i) r ((blocks s)[i := a])
      = take i (blocks s) @ [a, r] @ drop (Suc i) (blocks s)" for a r
    using i by (simp add: list_insert_def take_Suc_conv_app_nth)
  have nth: "(take i (blocks s) @ [a, r] @ drop (Suc i) (blocks s)) ! i = a" for a r
    using i by (simp add: nth_append)
  note defs = allocate_success [OF assms(1,2)] Let_def new_block_def
  show "fst (allocate lc s name requested use_buddy)
           = (True, Msg_allocated name (actual_size lc requested use_buddy),
              Some (start (store s (blocks s ! i))))"
    using assms(3) by (simp add: defs)
  show "total_memory (snd (allocate lc s name requested use_buddy)) = total_memory s"
    using assms(3) by (simp add: defs)
  show "next_ref (snd (allocate lc s name requested use_buddy)) = Suc (Suc (next_ref s))"
    using assms(3) by (simp add: defs)
  show "blocks (snd (allocate lc s name requested use_buddy))
           = take i (blocks s) @ [next_ref s, Suc (next_ref s)] @ drop (Suc i) (blocks s)"
    using assms(3) by (simp add: defs ins)
  show "store (snd (allocate lc s name requested use_buddy))
           = (store s)
               (next_ref s :=
                  \<lparr>start = start (store s (blocks s ! i)),
                   size_kb = actual_size lc requested use_buddy,
                   is_free = False, process_name = Some name\<rparr>,
                Suc (next_ref s) :=
                  \<lparr>start = start (store s (blocks s ! i)) + actual_size lc requested use_buddy,
                   size_kb = size_kb (store s (blocks s ! i)) - actual_size lc requested use_buddy,
                   is_free = True, process_name = None\<rparr>)"
    using assms(3) by (simp add: defs)
  show "process_map (snd (allocate lc s name requested use_buddy))
           = (process_map s)(Some name \<mapsto> next_ref s)"
    using assms(3) nth [of "next_ref s" "Suc (next_ref s)"] by (simp add: defs ins)
qed

lemma allocate_whole:
  assumes "Some name \<notin> dom (process_map s)"
    and "find_best_fit s (actual_size lc requested use_buddy) = Some i"
    and "\<not> actual_size lc requested use_buddy < size_kb (store s (blocks s ! i))"
  shows "fst (allocate lc s name requested use_buddy)
           = (True, Msg_allocated name (actual_size lc requested use_buddy),
              Some (start (store s (blocks s ! i))))"
    and "total_memory (snd (allocate lc s name requested use_buddy)) = total_memory s"
    and "next_ref (snd (allocate lc s name requested use_buddy)) = next_ref s"
    and "blocks (snd (allocate lc s name requested use_buddy)) = blocks s"
    and "store (snd (allocate lc s name requested use_buddy))
           = (store s)
               (blocks s ! i :=
                  (store s (blocks s ! i))\<lparr>is_free := False, process_name := Some name\<rparr>)"
    and "process_map (snd (allocate lc s name requested use_buddy))
           = (process_map s)(Some name \<mapsto> blocks s ! i)"
  using assms(3) by (simp_all add: allocate_success [OF assms(1,2)] Let_def)


lemma deallocate_not_found:
  "Some name \<notin> dom (process_map s) \<Longrightarrow> deallocate s name = ((False, Msg_not_found name), s)"
  by (simp add: deallocate_def)

lemma deallocate_found:
  "Some name \<in> dom (process_map s) \<Longrightarrow>
   deallocate s name =
     ((True, Msg_deallocated name),
      merge_free_blocks
        (s\<lparr>store := free_first_owned (store s) name (blocks s),
           process_map := (process_map s)(Some name := None)\<rparr>))"
  by (simp add: deallocate_def Let_def)

lemma free_first_owned_unique:
  "r \<in> set rs \<Longrightarrow> \<not> is_free (st r) \<Longrightarrow> process_name (st r) = Some name \<Longrightarrow>
   (\<forall>x\<in>set rs. \<not> is_free (st x) \<and> process_name (st x) = Some name \<longrightarrow> x = r) \<Longrightarrow>
   free_first_owned st name rs = st(r := (st r)\<lparr>is_free := True, process_name := None\<rparr>)"
proof (induction rs)
  case Nil
  then show ?case by simp
next
  case (Cons x xs)
  show ?case
  proof (cases "\<not> is_free (st x) \<and> process_name (st x) = Some name")
    case True
    with Cons.prems(4) have "x = r" by simp
    moreover have "free_first_owned st name (x # xs)
        = st(x := (st x)\<lparr>is_free := True, process_name := None\<rparr>)"
      using True by simp
    ultimately show ?thesis by simp
  next
    case False
    have e: "free_first_owned st name (x # xs) = free_first_owned st name xs"
      by (subst free_first_owned.simps) (simp only: False if_False)
    from False Cons.prems(2,3) have "x \<noteq> r" by blast
    with Cons.prems(1) have "r \<in> set xs" by simp
    moreover have "\<forall>y\<in>set xs. \<not> is_free (st y) \<and> process_name (st y) = Some name \<longrightarrow> y = r"
      using Cons.prems(4) by simp
    ultimately show ?thesis
      unfolding e using Cons.IH Cons.prems(2,3) by blast
  qed
qed

lemma free_first_owned_none:
  "(\<forall>x\<in>set rs. \<not> (\<not> is_free (st x) \<and> process_name (st x) = Some name)) \<Longrightarrow>
   free_first_owned st name rs = st"
proof (induction rs)
  case Nil
  then show ?case by simp
next
  case (Cons x xs)
  then have nx: "\<not> (\<not> is_free (st x) \<and> process_name (st x) = Some name)"
    and "free_first_owned st name xs = st" by simp_all
  moreover have e: "free_first_owned st name (x # xs) = free_first_owned st name xs"
    by (subst free_first_owned.simps) (simp only: nx if_False)
  ultimately show ?case by simp
qed

lemma coalesce_short: "length xs \<le> 1 \<Longrightarrow> coalesce xs = xs"
proof (cases xs)
  case Nil
  then show ?thesis by (simp add: coalesce_def)
next
  case (Cons x ys)
  assume "length xs \<le> 1"
  with Cons have "ys = []" by simp
  with Cons show ?thesis by (simp add: coalesce_def)
qed

lemma merge_free_blocks_spec:
  assumes "distinct (blocks s)"
  shows "block_list (merge_free_blocks s) = coalesce (block_list s)"
    and "frees_resized (store s) (store (merge_free_blocks s))"
    and "distinct (blocks (merge_free_blocks s))"
    and "set (blocks (merge_free_blocks s)) \<subseteq> set (blocks s)"
    and "\<forall>r\<in>set (blocks s). \<not> is_free (store s r) \<longrightarrow> r \<in> set (blocks (merge_free_blocks s))"
    and "\<forall>r. r \<notin> set (blocks s) \<longrightarrow> store (merge_free_blocks s) r = store s r"
    and "total_memory (merge_free_blocks s) = total_memory s"
    and "process_map (merge_free_blocks s) = process_map s"
    and "next_ref (merge_free_blocks s) = next_ref s"
proof -
  let ?m = "merge_loop (store s) (blocks s) []"
  have d: "distinct ([] @ blocks s)" using assms by simp
  note sp = merge_loop_spec [OF d, of "store s"]
  have sp1: "map (fst ?m) (snd ?m) = coalesce (map (store s) (blocks s))"
    and sp2: "frees_resized (store s) (fst ?m)"
    and sp3: "distinct (snd ?m)"
    and sp4: "set (snd ?m) \<subseteq> set (blocks s)"
    and sp5: "\<forall>r\<in>set (blocks s). \<not> is_free (store s r) \<longrightarrow> r \<in> set (snd ?m)"
    and sp6: "\<forall>r. r \<notin> set (blocks s) \<longrightarrow> fst ?m r = store s r"
    using sp by simp_all
  show "block_list (merge_free_blocks s) = coalesce (block_list s)"
    using sp1 coalesce_short [of "map (store s) (blocks s)"]
    by (simp add: merge_free_blocks_def block_list_def split_beta)
  show "frees_resized (store s) (store (merge_free_blocks s))"
    using sp2 by (simp add: merge_free_blocks_def frees_resized_refl split_beta)
  show "distinct (blocks (merge_free_blocks s))"
    using sp3 assms by (simp add: merge_free_blocks_def split_beta)
  show "set (blocks (merge_free_blocks s)) \<subseteq> set (blocks s)"
    using sp4 by (simp add: merge_free_blocks_def split_beta)
  show "\<forall>r\<in>set (blocks s). \<not> is_free (store s r) \<longrightarrow> r \<in> set (blocks (merge_free_blocks s))"
    using sp5 by (simp add: merge_free_blocks_def split_beta)
  show "\<forall>r. r \<notin> set (blocks s) \<longrightarrow> store (merge_free_blocks s) r = store s r"
    using sp6 by (simp add: merge_free_blocks_def split_beta)
  show "total_memory (merge_free_blocks s) = total_memory s"
    by (simp add: merge_free_blocks_def split_beta)
  show "process_map (merge_free_blocks s) = process_map s"
    by (simp add: merge_free_blocks_def split_beta)
  show "next_ref (merge_free_blocks s) = next_ref s"
    by (simp add: merge_free_blocks_def split_beta)
qed

lemma compact_nothing:
  "allocated_refs s = [] \<Longrightarrow> compact s = ((False, Msg_nothing_to_compact, 0), s)"
  by (simp add: compact_def allocated_refs_def)

lemma compact_success:
  assumes ne: "allocated_refs s \<noteq> []"
    and fresh: "\<forall>r\<in>set (blocks s). r < next_ref s"
  defines "n \<equiv> next_ref s"
    and "m \<equiv> length (allocated_refs s)"
    and "used \<equiv> sum_list (map (\<lambda>b. size_kb (store s b)) (allocated_refs s))"
  shows "fst (compact s) = (True, Msg_compacted, m)"
    and "total_memory (snd (compact s)) = total_memory s"
    and "blocks (snd (compact s))
           = [n ..< n + m] @ (if 0 < total_memory s - used then [n + m] else [])"
    and "next_ref (snd (compact s)) = n + m + (if 0 < total_memory s - used then 1 else 0)"
    and "\<forall>r. r < n \<longrightarrow> store (snd (compact s)) r = store s r"
    and "map (store (snd (compact s))) [n ..< n + m]
           = relocate 0 (map (store s) (allocated_refs s))"
    and "0 < total_memory s - used \<longrightarrow>
           store (snd (compact s)) (n + m)
             = \<lparr>start = used, size_kb = total_memory s - used, is_free = True,
                process_name = None\<rparr>"
    and "\<forall>k. k \<notin> (\<lambda>b. process_name (store s b)) ` set (allocated_refs s) \<longrightarrow>
           process_map (snd (compact s)) k = process_map s k"
    and "distinct (map (\<lambda>b. process_name (store s b)) (allocated_refs s)) \<longrightarrow>
           (\<forall>i<m. process_map (snd (compact s)) (process_name (store s (allocated_refs s ! i)))
                    = Some (n + i))"
proof -
  let ?al = "allocated_refs s"
  have lt: "\<forall>b\<in>set ?al. b < next_ref s"
    using fresh by (simp add: allocated_refs_def)
  obtain s1 nb addr where res: "compact_loop s ?al [] 0 = (s1, nb, addr)"
    by (cases "compact_loop s ?al [] 0") auto
  from compact_loop_spec [OF lt, of "[]" 0] res
  have L: "total_memory s1 = total_memory s" "blocks s1 = blocks s"
    "next_ref s1 = n + m" "nb = [n ..< n + m]" "addr = used"
    "\<forall>r. r < n \<longrightarrow> store s1 r = store s r"
    "map (store s1) [n ..< n + m] = relocate 0 (map (store s) ?al)"
    "\<forall>k. k \<notin> (\<lambda>b. process_name (store s b)) ` set ?al \<longrightarrow> process_map s1 k = process_map s k"
    "distinct (map (\<lambda>b. process_name (store s b)) ?al) \<longrightarrow>
         (\<forall>i<m. process_map s1 (process_name (store s (?al ! i))) = Some (n + i))"
    by (simp_all add: n_def m_def used_def)
  have unf: "compact s =
      (let free_space = total_memory s1 - addr;
           (new_blocks', s2) =
                     (if free_space > 0
                      then case new_block \<lparr>start = addr, size_kb = free_space,
                                           is_free = True, process_name = None\<rparr> s1 of
                             (f, sf) \<Rightarrow> (nb @ [f], sf)
                      else (nb, s1))
       in ((True, Msg_compacted, length ?al), s2\<lparr>blocks := new_blocks'\<rparr>))"
    using ne res by (simp add: compact_def allocated_refs_def [symmetric])
  show "fst (compact s) = (True, Msg_compacted, m)"
    by (simp add: unf Let_def m_def split_beta)
  show "total_memory (snd (compact s)) = total_memory s"
    using L(1) by (simp add: unf Let_def new_block_def)
  show "blocks (snd (compact s))
           = [n ..< n + m] @ (if 0 < total_memory s - used then [n + m] else [])"
    using L(1,3,4,5) by (simp add: unf Let_def new_block_def)
  show "next_ref (snd (compact s)) = n + m + (if 0 < total_memory s - used then 1 else 0)"
    using L(1,3,5) by (simp add: unf Let_def new_block_def)
  show "\<forall>r. r < n \<longrightarrow> store (snd (compact s)) r = store s r"
    using L(1,3,5,6) by (simp add: unf Let_def new_block_def)
  show "map (store (snd (compact s))) [n ..< n + m]
           = relocate 0 (map (store s) (allocated_refs s))"
  proof -
    have "map (store (snd (compact s))) [n ..< n + m] = map (store s1) [n ..< n + m]"
      using L(3) by (simp add: unf Let_def new_block_def)
    with L(7) show ?thesis by simp
  qed
  show "0 < total_memory s - used \<longrightarrow>
           store (snd (compact s)) (n + m)
             = \<lparr>start = used, size_kb = total_memory s - used, is_free = True,
                process_name = None\<rparr>"
    using L(1,3,5) by (simp add: unf Let_def new_block_def)
  show "\<forall>k. k \<notin> (\<lambda>b. process_name (store s b)) ` set (allocated_refs s) \<longrightarrow>
           process_map (snd (compact s)) k = process_map s k"
    using L(8) by (simp add: unf Let_def new_block_def)
  show "distinct (map (\<lambda>b. process_name (store s b)) (allocated_refs s)) \<longrightarrow>
           (\<forall>i<m. process_map (snd (compact s)) (process_name (store s (allocated_refs s ! i)))
                    = Some (n + i))"
    using L(9) by (simp add: unf Let_def new_block_def)
qed

lemma relocate_nth:
  "i < length bs \<Longrightarrow>
   relocate a bs ! i =
     \<lparr>start = a + sum_list (map size_kb (take i bs)), size_kb = size_kb (bs ! i),
      is_free = False, process_name = process_name (bs ! i)\<rparr>"
proof (induction bs arbitrary: a i)
  case Nil
  then show ?case by simp
next
  case (Cons b bs)
  show ?case
  proof (cases i)
    case 0
    then show ?thesis by simp
  next
    case (Suc j)
    with Cons.prems have "j < length bs" by simp
    from Cons.IH [OF this, of "a + size_kb b"] Suc show ?thesis by (simp add: add.assoc)
  qed
qed

lemma compact_block_list:
  assumes "allocated_refs s \<noteq> []" and "\<forall>r\<in>set (blocks s). r < next_ref s"
  shows "block_list (snd (compact s))
     = relocate 0 (map (store s) (allocated_refs s))
       @ (if 0 < total_memory s - sum_list (map (\<lambda>b. size_kb (store s b)) (allocated_refs s))
          then [\<lparr>start = sum_list (map (\<lambda>b. size_kb (store s b)) (allocated_refs s)),
                 size_kb = total_memory s
                    - sum_list (map (\<lambda>b. size_kb (store s b)) (allocated_refs s)),
                 is_free = True, process_name = None\<rparr>]
          else [])"
  using compact_success(3,6,7) [OF assms]
  by (simp add: block_list_def)

subsection \<open>The store and the registry stay well formed\<close>

lemma registry_okI:
  assumes "\<And>k r. process_map s k = Some r \<Longrightarrow>
             r \<in> set (blocks s) \<and> \<not> is_free (store s r) \<and> process_name (store s r) = k"
    and "\<And>r. r \<in> set (blocks s) \<Longrightarrow> \<not> is_free (store s r) \<Longrightarrow>
             process_map s (process_name (store s r)) = Some r"
    and "\<And>r. r \<in> set (blocks s) \<Longrightarrow> is_free (store s r) \<Longrightarrow> process_name (store s r) = None"
    and "process_map s None = None"
  shows "registry_ok s"
  unfolding registry_ok_def using assms by blast

lemma registry_okD:
  assumes "registry_ok s"
  shows "process_map s k = Some r \<Longrightarrow>
             r \<in> set (blocks s) \<and> \<not> is_free (store s r) \<and> process_name (store s r) = k"
    and "r \<in> set (blocks s) \<Longrightarrow> \<not> is_free (store s r) \<Longrightarrow>
             process_map s (process_name (store s r)) = Some r"
    and "r \<in> set (blocks s) \<Longrightarrow> is_free (store s r) \<Longrightarrow> process_name (store s r) = None"
    and "process_map s None = None"
  using assms unfolding registry_ok_def by blast+

lemma heap_okD:
  assumes "heap_ok s"
  shows "distinct (blocks s)" and "r \<in> set (blocks s) \<Longrightarrow> r < next_ref s"
  using assms unfolding heap_ok_def by blast+

lemma initialize_memory_ok:
  "heap_ok (initialize_memory s)" "registry_ok (initialize_memory s)"
proof -
  show "heap_ok (initialize_memory s)"
    by (simp add: heap_ok_def initialize_memory_fields)
  show "registry_ok (initialize_memory s)"
    by (rule registry_okI) (simp_all add: initialize_memory_fields)
qed

lemma set_split_at:
  "i < length xs \<Longrightarrow> set xs = set (take i xs) \<union> {xs ! i} \<union> set (drop (Suc i) xs)"
proof -
  assume "i < length xs"
  then have "xs = take i xs @ xs ! i # drop (Suc i) xs" by (rule id_take_nth_drop)
  then have "set xs = set (take i xs @ xs ! i # drop (Suc i) xs)" by simp
  then show ?thesis by simp
qed

lemma distinct_split_at:
  assumes "i < length xs" "distinct xs"
  shows "distinct (take i xs @ drop (Suc i) xs)"
    and "xs ! i \<notin> set (take i xs)" and "xs ! i \<notin> set (drop (Suc i) xs)"
proof -
  from assms(1) have e: "xs = take i xs @ xs ! i # drop (Suc i) xs" by (rule id_take_nth_drop)
  from assms(2) have d: "distinct (take i xs @ xs ! i # drop (Suc i) xs)"
    using e by simp
  from d show "distinct (take i xs @ drop (Suc i) xs)" by simp
  from d show "xs ! i \<notin> set (take i xs)" by simp
  from d show "xs ! i \<notin> set (drop (Suc i) xs)" by simp
qed

lemma allocate_whole_ok:
  assumes h: "heap_ok s" and g: "registry_ok s"
    and nd: "Some name \<notin> dom (process_map s)"
    and fb: "find_best_fit s (actual_size lc requested use_buddy) = Some i"
    and w: "\<not> actual_size lc requested use_buddy < size_kb (store s (blocks s ! i))"
  shows "heap_ok (snd (allocate lc s name requested use_buddy))"
    and "registry_ok (snd (allocate lc s name requested use_buddy))"
proof -
  let ?s' = "snd (allocate lc s name requested use_buddy)"
  let ?b = "blocks s ! i"
  note F = allocate_whole [OF nd fb w]
  have i: "i < length (blocks s)" and fr: "is_free (store s ?b)"
    using find_best_fit_Some [OF fb] by (simp_all add: fits_def)
  have bin: "?b \<in> set (blocks s)" using i by simp
  have st_other: "\<And>r. r \<noteq> ?b \<Longrightarrow> store ?s' r = store s r"
    and st_b: "\<not> is_free (store ?s' ?b)" "process_name (store ?s' ?b) = Some name"
    by (simp_all add: F(5))
  have pm_name: "process_map ?s' (Some name) = Some ?b"
    and pm_other: "\<And>k. k \<noteq> Some name \<Longrightarrow> process_map ?s' k = process_map s k"
    by (simp_all add: F(6))
  show "heap_ok ?s'"
    using h by (simp add: heap_ok_def F)
  show "registry_ok ?s'"
  proof (rule registry_okI)
    fix k r assume a: "process_map ?s' k = Some r"
    show "r \<in> set (blocks ?s') \<and> \<not> is_free (store ?s' r) \<and> process_name (store ?s' r) = k"
    proof (cases "k = Some name")
      case True
      with a pm_name have "r = ?b" by simp
      with True bin st_b show ?thesis by (simp add: F(4))
    next
      case False
      with a pm_other have "process_map s k = Some r" by simp
      from registry_okD(1) [OF g this]
      have r: "r \<in> set (blocks s)" "\<not> is_free (store s r)" "process_name (store s r) = k"
        by simp_all
      with fr have "r \<noteq> ?b" by auto
      with r st_other show ?thesis by (simp add: F(4))
    qed
  next
    fix r assume a: "r \<in> set (blocks ?s')" "\<not> is_free (store ?s' r)"
    show "process_map ?s' (process_name (store ?s' r)) = Some r"
    proof (cases "r = ?b")
      case True
      with st_b pm_name show ?thesis by simp
    next
      case False
      with a st_other have r: "r \<in> set (blocks s)" "\<not> is_free (store s r)"
        by (simp_all add: F(4))
      from registry_okD(2) [OF g this] have p: "process_map s (process_name (store s r)) = Some r" .
      with nd have "process_name (store s r) \<noteq> Some name" by auto
      with p pm_other st_other False show ?thesis by simp
    qed
  next
    fix r assume a: "r \<in> set (blocks ?s')" "is_free (store ?s' r)"
    with st_b have "r \<noteq> ?b" by auto
    with a st_other have "r \<in> set (blocks s)" "is_free (store s r)" "store ?s' r = store s r"
      by (simp_all add: F(4))
    with registry_okD(3) [OF g] show "process_name (store ?s' r) = None" by simp
  next
    show "process_map ?s' None = None"
      using registry_okD(4) [OF g] by (simp add: F(6))
  qed
qed

lemma allocate_split_ok:
  assumes h: "heap_ok s" and g: "registry_ok s"
    and nd: "Some name \<notin> dom (process_map s)"
    and fb: "find_best_fit s (actual_size lc requested use_buddy) = Some i"
    and w: "actual_size lc requested use_buddy < size_kb (store s (blocks s ! i))"
  shows "heap_ok (snd (allocate lc s name requested use_buddy))"
    and "registry_ok (snd (allocate lc s name requested use_buddy))"
proof -
  let ?s' = "snd (allocate lc s name requested use_buddy)"
  let ?b = "blocks s ! i"
  let ?n = "next_ref s"
  note F = allocate_split [OF nd fb w]
  have i: "i < length (blocks s)" and fr: "is_free (store s ?b)"
    using find_best_fit_Some [OF fb] by (simp_all add: fits_def)
  have lt: "\<And>r. r \<in> set (blocks s) \<Longrightarrow> r < ?n" using heap_okD(2) [OF h] .
  have setb: "set (blocks s) = set (take i (blocks s)) \<union> {?b} \<union> set (drop (Suc i) (blocks s))"
    using set_split_at [OF i] .
  have setb': "set (blocks ?s') = set (take i (blocks s)) \<union> {?n, Suc ?n} \<union> set (drop (Suc i) (blocks s))"
    by (auto simp: F(4))
  note ds = distinct_split_at [OF i heap_okD(1) [OF h]]
  have old_in: "\<And>r. r \<in> set (blocks s) \<Longrightarrow> r \<noteq> ?b \<Longrightarrow> r \<in> set (blocks ?s')"
    using setb setb' by blast
  have new_in: "\<And>r. r \<in> set (blocks ?s') \<Longrightarrow> r = ?n \<or> r = Suc ?n \<or> (r \<in> set (blocks s) \<and> r < ?n)"
    using setb setb' lt by blast
  have st_old: "\<And>r. r < ?n \<Longrightarrow> store ?s' r = store s r"
    by (simp add: F(5))
  have st_n: "\<not> is_free (store ?s' ?n)" "process_name (store ?s' ?n) = Some name"
    and st_n1: "is_free (store ?s' (Suc ?n))" "process_name (store ?s' (Suc ?n)) = None"
    by (simp_all add: F(5))
  have pm_name: "process_map ?s' (Some name) = Some ?n"
    and pm_other: "\<And>k. k \<noteq> Some name \<Longrightarrow> process_map ?s' k = process_map s k"
    by (simp_all add: F(6))
  show "heap_ok ?s'"
  proof -
    have "distinct (blocks ?s')"
    proof -
      have "?n \<notin> set (blocks s)" "Suc ?n \<notin> set (blocks s)"
        using lt by fastforce+
      then have "?n \<notin> set (take i (blocks s))" "?n \<notin> set (drop (Suc i) (blocks s))"
        "Suc ?n \<notin> set (take i (blocks s))" "Suc ?n \<notin> set (drop (Suc i) (blocks s))"
        using setb by blast+
      with ds(1) show ?thesis by (simp add: F(4))
    qed
    moreover have "\<forall>r. r \<in> set (blocks ?s') \<longrightarrow> r < next_ref ?s'"
      using new_in by (fastforce simp: F(3))
    ultimately show ?thesis by (simp add: heap_ok_def)
  qed
  show "registry_ok ?s'"
  proof (rule registry_okI)
    fix k r assume a: "process_map ?s' k = Some r"
    show "r \<in> set (blocks ?s') \<and> \<not> is_free (store ?s' r) \<and> process_name (store ?s' r) = k"
    proof (cases "k = Some name")
      case True
      with a pm_name have "r = ?n" by simp
      with True st_n setb' show ?thesis by simp
    next
      case False
      with a pm_other have "process_map s k = Some r" by simp
      from registry_okD(1) [OF g this]
      have r: "r \<in> set (blocks s)" "\<not> is_free (store s r)" "process_name (store s r) = k"
        by simp_all
      with fr have "r \<noteq> ?b" by auto
      with r old_in lt st_old show ?thesis by simp
    qed
  next
    fix r assume a: "r \<in> set (blocks ?s')" "\<not> is_free (store ?s' r)"
    from new_in [OF a(1)] a(2) st_n1(1)
    consider "r = ?n" | "r \<in> set (blocks s)" "r < ?n" by blast
    then show "process_map ?s' (process_name (store ?s' r)) = Some r"
    proof cases
      case 1
      with st_n pm_name show ?thesis by simp
    next
      case 2
      with a st_old have nf: "\<not> is_free (store s r)" by simp
      from registry_okD(2) [OF g 2(1) nf] have p: "process_map s (process_name (store s r)) = Some r" .
      with nd have "process_name (store s r) \<noteq> Some name" by auto
      with p pm_other st_old 2 show ?thesis by simp
    qed
  next
    fix r assume a: "r \<in> set (blocks ?s')" "is_free (store ?s' r)"
    from new_in [OF a(1)] a(2) st_n(1)
    consider "r = Suc ?n" | "r \<in> set (blocks s)" "r < ?n" by blast
    then show "process_name (store ?s' r) = None"
    proof cases
      case 1
      with st_n1 show ?thesis by simp
    next
      case 2
      with a st_old have "is_free (store s r)" by simp
      with registry_okD(3) [OF g 2(1)] st_old 2 show ?thesis by simp
    qed
  next
    show "process_map ?s' None = None"
      using registry_okD(4) [OF g] by (simp add: F(6))
  qed
qed

lemma allocate_ok:
  assumes h: "heap_ok s" and g: "registry_ok s"
  shows "heap_ok (snd (allocate lc s name requested use_buddy))"
    and "registry_ok (snd (allocate lc s name requested use_buddy))"
proof -
  have "heap_ok (snd (allocate lc s name requested use_buddy))
      \<and> registry_ok (snd (allocate lc s name requested use_buddy))"
  proof (cases "Some name \<in> dom (process_map s)")
    case True
    then show ?thesis using h g by (simp add: allocate_duplicate)
  next
    case nd: False
    show ?thesis
    proof (cases "find_best_fit s (actual_size lc requested use_buddy)")
      case None
      then show ?thesis using h g nd by (simp add: allocate_no_fit)
    next
      case (Some i)
      show ?thesis
      proof (cases "actual_size lc requested use_buddy < size_kb (store s (blocks s ! i))")
        case True
        from allocate_split_ok [OF h g nd Some True] show ?thesis by simp
      next
        case False
        from allocate_whole_ok [OF h g nd Some False] show ?thesis by simp
      qed
    qed
  qed
  then show "heap_ok (snd (allocate lc s name requested use_buddy))"
    and "registry_ok (snd (allocate lc s name requested use_buddy))" by simp_all
qed

lemma merge_free_blocks_ok:
  assumes h: "heap_ok s" and g: "registry_ok s"
  shows "heap_ok (merge_free_blocks s)" and "registry_ok (merge_free_blocks s)"
proof -
  let ?s' = "merge_free_blocks s"
  note M = merge_free_blocks_spec [OF heap_okD(1) [OF h]]
  have fr: "\<And>r. is_free (store ?s' r) = is_free (store s r)"
    "\<And>r. process_name (store ?s' r) = process_name (store s r)"
    using M(2) by (simp_all add: frees_resized_def)
  show "heap_ok ?s'"
    using M(3,4,9) heap_okD(2) [OF h] by (auto simp: heap_ok_def)
  show "registry_ok ?s'"
  proof (rule registry_okI)
    fix k r assume "process_map ?s' k = Some r"
    then have "process_map s k = Some r" by (simp add: M(8))
    from registry_okD(1) [OF g this] M(5) fr
    show "r \<in> set (blocks ?s') \<and> \<not> is_free (store ?s' r) \<and> process_name (store ?s' r) = k"
      by simp
  next
    fix r assume "r \<in> set (blocks ?s')" "\<not> is_free (store ?s' r)"
    then have "r \<in> set (blocks s)" "\<not> is_free (store s r)" using M(4) fr by auto
    from registry_okD(2) [OF g this] show "process_map ?s' (process_name (store ?s' r)) = Some r"
      by (simp add: M(8) fr)
  next
    fix r assume "r \<in> set (blocks ?s')" "is_free (store ?s' r)"
    then have "r \<in> set (blocks s)" "is_free (store s r)" using M(4) fr by auto
    from registry_okD(3) [OF g this] show "process_name (store ?s' r) = None"
      by (simp add: fr)
  next
    show "process_map ?s' None = None" using registry_okD(4) [OF g] by (simp add: M(8))
  qed
qed

text \<open>
  In a well-formed state the loop of \<open>deallocate\<close> frees the block that the registry
  holds for the name.
\<close>

lemma free_first_owned_registry:
  assumes g: "registry_ok s" and p: "process_map s (Some name) = Some r"
  shows "free_first_owned (store s) name (blocks s)
     = (store s)(r := (store s r)\<lparr>is_free := True, process_name := None\<rparr>)"
proof (rule free_first_owned_unique)
  from registry_okD(1) [OF g p]
  show "r \<in> set (blocks s)" "\<not> is_free (store s r)" "process_name (store s r) = Some name"
    by simp_all
  show "\<forall>x\<in>set (blocks s). \<not> is_free (store s x) \<and> process_name (store s x) = Some name \<longrightarrow> x = r"
  proof (intro ballI impI)
    fix x assume "x \<in> set (blocks s)" "\<not> is_free (store s x) \<and> process_name (store s x) = Some name"
    with registry_okD(2) [OF g, of x] have "process_map s (Some name) = Some x" by auto
    with p show "x = r" by simp
  qed
qed

lemma deallocate_freed_ok:
  assumes h: "heap_ok s" and g: "registry_ok s" and p: "process_map s (Some name) = Some r"
  defines "s2 \<equiv> s\<lparr>store := free_first_owned (store s) name (blocks s),
                   process_map := (process_map s)(Some name := None)\<rparr>"
  shows "heap_ok s2" and "registry_ok s2"
proof -
  have st: "store s2 = (store s)(r := (store s r)\<lparr>is_free := True, process_name := None\<rparr>)"
    by (simp add: s2_def free_first_owned_registry [OF g p])
  have bl: "blocks s2 = blocks s" and pm: "process_map s2 = (process_map s)(Some name := None)"
    and nr: "next_ref s2 = next_ref s"
    by (simp_all add: s2_def)
  from registry_okD(1) [OF g p]
  have r: "r \<in> set (blocks s)" "\<not> is_free (store s r)" "process_name (store s r) = Some name"
    by simp_all
  have st_other: "\<And>x. x \<noteq> r \<Longrightarrow> store s2 x = store s x"
    and st_r: "is_free (store s2 r)" "process_name (store s2 r) = None"
    by (simp_all add: st)
  show "heap_ok s2" using h by (simp add: heap_ok_def bl nr)
  show "registry_ok s2"
  proof (rule registry_okI)
    fix k x assume "process_map s2 k = Some x"
    then have k: "k \<noteq> Some name" "process_map s k = Some x"
      by (auto simp: pm split: if_splits)
    from registry_okD(1) [OF g k(2)]
    have x: "x \<in> set (blocks s)" "\<not> is_free (store s x)" "process_name (store s x) = k"
      by simp_all
    with k(1) r(3) have "x \<noteq> r" by auto
    with x st_other show "x \<in> set (blocks s2) \<and> \<not> is_free (store s2 x) \<and> process_name (store s2 x) = k"
      by (simp add: bl)
  next
    fix x assume a: "x \<in> set (blocks s2)" "\<not> is_free (store s2 x)"
    with st_r have ne: "x \<noteq> r" by auto
    with a st_other have x: "x \<in> set (blocks s)" "\<not> is_free (store s x)" by (simp_all add: bl)
    from registry_okD(2) [OF g x] have px: "process_map s (process_name (store s x)) = Some x" .
    with p ne have "process_name (store s x) \<noteq> Some name" by auto
    with px ne st_other show "process_map s2 (process_name (store s2 x)) = Some x"
      by (simp add: pm)
  next
    fix x assume a: "x \<in> set (blocks s2)" "is_free (store s2 x)"
    show "process_name (store s2 x) = None"
    proof (cases "x = r")
      case True
      with st_r show ?thesis by simp
    next
      case False
      with a st_other have "x \<in> set (blocks s)" "is_free (store s x)" by (simp_all add: bl)
      with registry_okD(3) [OF g] False st_other show ?thesis by simp
    qed
  next
    show "process_map s2 None = None" using registry_okD(4) [OF g] by (simp add: pm)
  qed
qed

lemma deallocate_ok:
  assumes h: "heap_ok s" and g: "registry_ok s"
  shows "heap_ok (snd (deallocate s name))" and "registry_ok (snd (deallocate s name))"
proof -
  have "heap_ok (snd (deallocate s name)) \<and> registry_ok (snd (deallocate s name))"
  proof (cases "Some name \<in> dom (process_map s)")
    case False
    then show ?thesis using h g by (simp add: deallocate_not_found)
  next
    case True
    then obtain r where p: "process_map s (Some name) = Some r" by auto
    from deallocate_freed_ok [OF h g p] merge_free_blocks_ok
    show ?thesis by (simp add: deallocate_found [OF True])
  qed
  then show "heap_ok (snd (deallocate s name))" and "registry_ok (snd (deallocate s name))"
    by simp_all
qed

lemma allocated_refs_set:
  "r \<in> set (allocated_refs s) \<longleftrightarrow> r \<in> set (blocks s) \<and> \<not> is_free (store s r)"
  by (simp add: allocated_refs_def)

lemma allocated_names_distinct:
  assumes h: "heap_ok s" and g: "registry_ok s"
  shows "distinct (map (\<lambda>b. process_name (store s b)) (allocated_refs s))"
proof -
  have "distinct (allocated_refs s)"
    using heap_okD(1) [OF h] by (simp add: allocated_refs_def)
  moreover have "inj_on (\<lambda>b. process_name (store s b)) (set (allocated_refs s))"
  proof (rule inj_onI)
    fix x y assume x: "x \<in> set (allocated_refs s)" and y: "y \<in> set (allocated_refs s)"
      and e: "process_name (store s x) = process_name (store s y)"
    from x have "x \<in> set (blocks s)" "\<not> is_free (store s x)"
      by (simp_all add: allocated_refs_set)
    from registry_okD(2) [OF g this]
    have px: "process_map s (process_name (store s x)) = Some x" .
    from y have "y \<in> set (blocks s)" "\<not> is_free (store s y)"
      by (simp_all add: allocated_refs_set)
    from registry_okD(2) [OF g this]
    have py: "process_map s (process_name (store s y)) = Some y" .
    from px py e show "x = y" by (metis option.inject)
  qed
  ultimately show ?thesis by (simp add: distinct_map)
qed

lemma compact_new_store:
  assumes ne: "allocated_refs s \<noteq> []" and fresh: "\<forall>r\<in>set (blocks s). r < next_ref s"
    and i: "i < length (allocated_refs s)"
  shows "store (snd (compact s)) (next_ref s + i)
     = \<lparr>start = sum_list (map size_kb (take i (map (store s) (allocated_refs s)))),
        size_kb = size_kb (store s (allocated_refs s ! i)),
        is_free = False, process_name = process_name (store s (allocated_refs s ! i))\<rparr>"
proof -
  let ?n = "next_ref s" and ?m = "length (allocated_refs s)"
  have "map (store (snd (compact s))) [?n ..< ?n + ?m] ! i
      = relocate 0 (map (store s) (allocated_refs s)) ! i"
    using compact_success(6) [OF ne fresh] by simp
  moreover have "map (store (snd (compact s))) [?n ..< ?n + ?m] ! i = store (snd (compact s)) (?n + i)"
    using i by simp
  ultimately show ?thesis using i by (simp add: relocate_nth)
qed

lemma compact_ok:
  assumes h: "heap_ok s" and g: "registry_ok s"
  shows "heap_ok (snd (compact s))" and "registry_ok (snd (compact s))"
proof -
  let ?s' = "snd (compact s)"
  let ?al = "allocated_refs s"
  let ?n = "next_ref s" and ?m = "length (allocated_refs s)"
  let ?nm = "\<lambda>b. process_name (store s b)"
  let ?used = "sum_list (map (\<lambda>b. size_kb (store s b)) ?al)"
  have "heap_ok ?s' \<and> registry_ok ?s'"
  proof (cases "?al = []")
    case True
    then show ?thesis using h g by (simp add: compact_nothing)
  next
    case ne: False
    have fresh: "\<forall>r\<in>set (blocks s). r < next_ref s" using heap_okD(2) [OF h] by blast
    note F = compact_success [OF ne fresh]
    note dn = allocated_names_distinct [OF h g]
    have bl: "set (blocks ?s') = {?n ..< ?n + ?m} \<union> (if 0 < total_memory s - ?used then {?n + ?m} else {})"
      by (simp add: F(3))
    have st_i: "\<And>i. i < ?m \<Longrightarrow> \<not> is_free (store ?s' (?n + i))
                     \<and> process_name (store ?s' (?n + i)) = ?nm (?al ! i)"
      by (simp add: compact_new_store [OF ne fresh])
    have pm_i: "\<And>i. i < ?m \<Longrightarrow> process_map ?s' (?nm (?al ! i)) = Some (?n + i)"
      using F(9) dn by blast
    have pm_o: "\<And>k. k \<notin> ?nm ` set ?al \<Longrightarrow> process_map ?s' k = process_map s k"
      using F(8) by blast
    have in_rng: "\<And>r. r \<in> {?n ..< ?n + ?m} \<Longrightarrow> \<exists>i<?m. r = ?n + i"
    proof -
      fix r assume "r \<in> {?n ..< ?n + ?m}"
      then have "r - ?n < ?m" "r = ?n + (r - ?n)" by auto
      then show "\<exists>i<?m. r = ?n + i" by blast
    qed
    have hp: "heap_ok ?s'"
    proof -
      have "distinct (blocks ?s')" by (simp add: F(3))
      moreover have "\<forall>r. r \<in> set (blocks ?s') \<longrightarrow> r < next_ref ?s'"
        using bl by (auto simp: F(4) split: if_splits)
      ultimately show ?thesis by (simp add: heap_ok_def)
    qed
    have rg: "registry_ok ?s'"
    proof (rule registry_okI)
      fix k r assume a: "process_map ?s' k = Some r"
      show "r \<in> set (blocks ?s') \<and> \<not> is_free (store ?s' r) \<and> process_name (store ?s' r) = k"
      proof (cases "k \<in> ?nm ` set ?al")
        case True
        then obtain i where i: "i < ?m" "?nm (?al ! i) = k"
          by (auto simp: in_set_conv_nth)
        with pm_i [OF i(1)] a have "r = ?n + i" by simp
        moreover have "?n + i \<in> set (blocks ?s')" using i(1) bl by simp
        ultimately show ?thesis using st_i [OF i(1)] i(2) by simp
      next
        case False
        with pm_o a have "process_map s k = Some r" by simp
        from registry_okD(1) [OF g this] have "r \<in> set ?al" "?nm r = k"
          by (simp_all add: allocated_refs_set)
        with False show ?thesis by blast
      qed
    next
      fix r assume a: "r \<in> set (blocks ?s')" "\<not> is_free (store ?s' r)"
      have "r \<in> {?n ..< ?n + ?m}"
      proof (rule ccontr)
        assume "r \<notin> {?n ..< ?n + ?m}"
        with a(1) bl have "r = ?n + ?m" "0 < total_memory s - ?used"
          by (auto split: if_splits)
        with F(7) a(2) show False by simp
      qed
      from in_rng [OF this] obtain i where i: "i < ?m" "r = ?n + i" by blast
      with st_i [OF i(1)] pm_i [OF i(1)]
      show "process_map ?s' (process_name (store ?s' r)) = Some r" by simp
    next
      fix r assume a: "r \<in> set (blocks ?s')" "is_free (store ?s' r)"
      have "r \<notin> {?n ..< ?n + ?m}"
      proof
        assume "r \<in> {?n ..< ?n + ?m}"
        from in_rng [OF this] obtain i where i: "i < ?m" "r = ?n + i" by blast
        with st_i [OF i(1)] a(2) show False by simp
      qed
      with a(1) bl have "r = ?n + ?m" "0 < total_memory s - ?used"
        by (auto split: if_splits)
      with F(7) show "process_name (store ?s' r) = None" by simp
    next
      have "None \<notin> ?nm ` set ?al"
      proof
        assume "None \<in> ?nm ` set ?al"
        then obtain b where b: "b \<in> set ?al" "?nm b = None" by auto
        with registry_okD(2) [OF g, of b] have "process_map s None = Some b"
          by (simp add: allocated_refs_set)
        with registry_okD(4) [OF g] show False by simp
      qed
      with pm_o registry_okD(4) [OF g] show "process_map ?s' None = None" by simp
    qed
    from hp rg show ?thesis by simp
  qed
  then show "heap_ok ?s'" and "registry_ok ?s'" by simp_all
qed

lemma reset_ok: "heap_ok (reset s c)" "registry_ok (reset s c)"
  by (simp_all add: reset_def initialize_memory_ok)

lemma ImprovisedMemoryManager_ok:
  "heap_ok (ImprovisedMemoryManager c)" "registry_ok (ImprovisedMemoryManager c)"
  by (simp_all add: ImprovisedMemoryManager_def initialize_memory_ok)

lemma reachable_ok: "reachable s \<Longrightarrow> heap_ok s \<and> registry_ok s"
proof (induction rule: reachable.induct)
  case (reach_init capacity)
  show ?case by (simp add: ImprovisedMemoryManager_ok)
next
  case (reach_allocate s lc name requested use_buddy)
  then show ?case by (simp add: allocate_ok)
next
  case (reach_deallocate s name)
  then show ?case by (simp add: deallocate_ok)
next
  case (reach_compact s)
  then show ?case by (simp add: compact_ok)
next
  case (reach_reset s new_total_memory)
  show ?case by (simp add: reset_ok)
qed

lemma registry_ok_consistent:
  assumes h: "heap_ok s" and g: "registry_ok s"
  shows "registry_consistent s"
proof -
  have d: "dom (process_map s) =
         {process_name (store s r) |r. r \<in> set (blocks s) \<and> \<not> is_free (store s r)}"
  proof (intro set_eqI iffI)
    fix k assume "k \<in> dom (process_map s)"
    then obtain r where "process_map s k = Some r" by auto
    from registry_okD(1) [OF g this]
    show "k \<in> {process_name (store s r) |r. r \<in> set (blocks s) \<and> \<not> is_free (store s r)}"
      by blast
  next
    fix k assume "k \<in> {process_name (store s r) |r. r \<in> set (blocks s) \<and> \<not> is_free (store s r)}"
    then obtain r where "r \<in> set (blocks s)" "\<not> is_free (store s r)" "k = process_name (store s r)"
      by blast
    with registry_okD(2) [OF g, of r] show "k \<in> dom (process_map s)" by auto
  qed
  have u: "\<forall>k r. process_map s k = Some r \<longrightarrow>
           r \<in> set (blocks s) \<and> \<not> is_free (store s r) \<and> process_name (store s r) = k
           \<and> (\<forall>r'. r' \<in> set (blocks s) \<and> \<not> is_free (store s r')
                      \<and> process_name (store s r') = k \<longrightarrow> r' = r)"
  proof (intro allI impI)
    fix k r assume p: "process_map s k = Some r"
    have "\<forall>r'. r' \<in> set (blocks s) \<and> \<not> is_free (store s r')
                      \<and> process_name (store s r') = k \<longrightarrow> r' = r"
    proof (intro allI impI)
      fix r' assume "r' \<in> set (blocks s) \<and> \<not> is_free (store s r') \<and> process_name (store s r') = k"
      with registry_okD(2) [OF g, of r'] have "process_map s k = Some r'" by auto
      with p show "r' = r" by simp
    qed
    with registry_okD(1) [OF g p]
    show "r \<in> set (blocks s) \<and> \<not> is_free (store s r) \<and> process_name (store s r) = k
           \<and> (\<forall>r'. r' \<in> set (blocks s) \<and> \<not> is_free (store s r')
                      \<and> process_name (store s r') = k \<longrightarrow> r' = r)"
      by blast
  qed
  have f: "\<forall>r. r \<in> set (blocks s) \<and> is_free (store s r) \<longrightarrow> process_name (store s r) = None"
    using registry_okD(3) [OF g] by blast
  have n: "\<forall>r. r \<in> set (blocks s) \<and> \<not> is_free (store s r) \<longrightarrow> process_name (store s r) \<noteq> None"
  proof (intro allI impI)
    fix r assume "r \<in> set (blocks s) \<and> \<not> is_free (store s r)"
    with registry_okD(2) [OF g, of r] have p: "process_map s (process_name (store s r)) = Some r" by simp
    show "process_name (store s r) \<noteq> None"
    proof
      assume "process_name (store s r) = None"
      with p registry_okD(4) [OF g] show False by simp
    qed
  qed
  from heap_okD(1) [OF h] d u f n show ?thesis
    unfolding registry_consistent_def by blast
qed

subsection \<open>The registry and the block sequence\<close>

text \<open>
  C8.  In every reachable state the registry is consistent with the block sequence:
  its keys are the owner names of the allocated blocks, every name maps to the one
  block object of the sequence that it owns, free blocks have no owner and
  allocated blocks have one.  Each of \<open>allocate\<close>, \<open>deallocate\<close>, \<open>compact\<close> and
  \<open>reset\<close> leads to a state in which this holds again.
\<close>

theorem registry_consistent_reachable:
  "reachable s \<Longrightarrow>
     registry_consistent s
   \<and> registry_consistent (snd (allocate lc s name requested use_buddy))
   \<and> registry_consistent (snd (deallocate s name))
   \<and> registry_consistent (snd (compact s))
   \<and> registry_consistent (reset s new_total_memory)"
proof -
  assume r: "reachable s"
  have c: "registry_consistent t" if "reachable t" for t
    using reachable_ok [OF that] by (simp add: registry_ok_consistent)
  from r show ?thesis
    by (intro conjI c reach_allocate reach_deallocate reach_compact reach_reset)
qed

theorem registry_consistent_reachable_witness:
  "reachable (snd (allocate (\<lambda>_. 7) (ImprovisedMemoryManager 1024) ''X'' 100 True))
   \<and> registry_consistent (snd (allocate (\<lambda>_. 7) (ImprovisedMemoryManager 1024) ''X'' 100 True))
   \<and> registry_consistent
       (snd (deallocate (snd (allocate (\<lambda>_. 7) (ImprovisedMemoryManager 1024) ''X'' 100 True)) ''X''))"
proof -
  have r: "reachable (snd (allocate (\<lambda>_. 7) (ImprovisedMemoryManager 1024) ''X'' 100 True))"
    by (rule reach_allocate) (rule reach_init)
  from r registry_consistent_reachable [OF r, of "\<lambda>_. 7" "''X''" 0 False None]
  show ?thesis by simp
qed

subsection \<open>Runs of blocks\<close>

lemma chain_append:
  "chain a (xs @ ys) b \<longleftrightarrow> (\<exists>m. chain a xs m \<and> chain m ys b)"
  by (induction xs arbitrary: a) auto

lemma chain_end: "chain a xs b \<Longrightarrow> b = a + sum_list (map size_kb xs)"
proof (induction xs arbitrary: a)
  case Nil
  then show ?case by simp
next
  case (Cons x xs)
  then have "chain (block_end x) xs b" and "start x = a" by simp_all
  from Cons.IH [OF this(1)] this(2) show ?case by (simp add: block_end_def)
qed

lemma chain_positive: "chain a xs b \<Longrightarrow> x \<in> set xs \<Longrightarrow> 0 < size_kb x"
  by (induction xs arbitrary: a) auto

lemma chain_same_extent:
  "map start xs = map start ys \<Longrightarrow> map size_kb xs = map size_kb ys \<Longrightarrow>
   chain a xs b = chain a ys b"
proof (induction xs arbitrary: a ys)
  case Nil
  then show ?case by simp
next
  case (Cons x xs)
  then obtain y ys' where ys: "ys = y # ys'" by (cases ys) auto
  with Cons.prems have "start x = start y" "size_kb x = size_kb y"
    "map start xs = map start ys'" "map size_kb xs = map size_kb ys'" by simp_all
  with Cons.IH [of ys' "block_end x"] ys show ?case by (simp add: block_end_def)
qed

lemma chain_update:
  "i < length xs \<Longrightarrow> start v = start (xs ! i) \<Longrightarrow> size_kb v = size_kb (xs ! i) \<Longrightarrow>
   chain a (xs[i := v]) b = chain a xs b"
  by (rule chain_same_extent) (simp_all add: map_update list_update_same_conv)

lemma chain_relocate:
  "(\<forall>x\<in>set xs. 0 < size_kb x) \<Longrightarrow> chain a (relocate a xs) (a + sum_list (map size_kb xs))"
proof (induction xs arbitrary: a)
  case Nil
  then show ?case by simp
next
  case (Cons x xs)
  then have "\<forall>y\<in>set xs. 0 < size_kb y" and p: "0 < size_kb x" by simp_all
  from Cons.IH [OF this(1), of "a + size_kb x"] p show ?case
    by (simp add: block_end_def add.assoc)
qed

lemma sum_filter_le:
  "(\<forall>x\<in>set xs. 0 < size_kb x) \<Longrightarrow>
   sum_list (map size_kb (filter P xs)) \<le> sum_list (map size_kb (xs :: MemoryBlock list))"
  by (induction xs) (auto intro: add_nonneg_nonneg order_trans less_imp_le)

lemma naf_append:
  "naf (xs @ ys) \<longleftrightarrow>
     naf xs \<and> naf ys \<and> (xs \<noteq> [] \<and> ys \<noteq> [] \<longrightarrow> \<not> (is_free (last xs) \<and> is_free (hd ys)))"
proof (induction xs rule: induct_list012)
  case 1
  then show ?case by simp
next
  case (2 x)
  then show ?case by (cases ys) auto
next
  case (3 x y zs)
  then show ?case by auto
qed

lemma naf_relocate: "naf (relocate a xs)"
proof (induction xs arbitrary: a rule: induct_list012)
  case 1
  then show ?case by simp
next
  case (2 x)
  then show ?case by simp
next
  case (3 x y zs)
  from 3(2) [of "a + size_kb x"] show ?case by simp
qed

lemma relocate_not_free: "x \<in> set (relocate a xs) \<Longrightarrow> \<not> is_free x"
  by (induction xs arbitrary: a) auto

lemma relocate_eq_Nil [simp]: "relocate a xs = [] \<longleftrightarrow> xs = []"
  by (cases xs) auto

text \<open>The two forms of the invariant, by recursion and by index.\<close>

lemma chain_nth:
  "chain a xs b \<Longrightarrow> Suc i < length xs \<Longrightarrow> start (xs ! Suc i) = block_end (xs ! i)"
proof (induction xs arbitrary: a i)
  case Nil
  then show ?case by simp
next
  case (Cons x xs)
  show ?case
  proof (cases i)
    case 0
    with Cons.prems show ?thesis by (cases xs) auto
  next
    case (Suc j)
    with Cons.prems have "chain (block_end x) xs b" "Suc j < length xs" by simp_all
    from Cons.IH [OF this] Suc show ?thesis by simp
  qed
qed

lemma chain_hd_last:
  "chain a xs b \<Longrightarrow> xs \<noteq> [] \<Longrightarrow> start (hd xs) = a \<and> block_end (last xs) = b"
proof (induction xs arbitrary: a)
  case Nil
  then show ?case by simp
next
  case (Cons x xs)
  then show ?case by (cases xs) auto
qed

lemma chain_ascending:
  "chain a xs b \<Longrightarrow> i < j \<Longrightarrow> j < length xs \<Longrightarrow> start (xs ! i) < start (xs ! j)"
proof (induction j arbitrary: i)
  case 0
  then show ?case by simp
next
  case (Suc j)
  from Suc.prems have sj: "start (xs ! Suc j) = block_end (xs ! j)" by (simp add: chain_nth)
  from Suc.prems have "0 < size_kb (xs ! j)" by (auto intro: chain_positive)
  with sj have lt: "start (xs ! j) < start (xs ! Suc j)" by (simp add: block_end_def)
  show ?case
  proof (cases "i = j")
    case True
    with lt show ?thesis by simp
  next
    case False
    with Suc.prems have "i < j" "j < length xs" by simp_all
    from Suc.IH [OF Suc.prems(1) this] lt show ?thesis by simp
  qed
qed

lemma chain_partitions:
  "chain 0 xs cap \<Longrightarrow> xs \<noteq> [] \<Longrightarrow> partitions_capacity xs cap"
  unfolding partitions_capacity_def
  using chain_hd_last [of 0 xs cap] chain_nth [of 0 xs cap] chain_ascending [of 0 xs cap]
    chain_positive [of 0 xs cap]
  by (auto simp: nth_mem)

lemma partitions_chain:
  assumes "partitions_capacity xs cap"
  shows "chain 0 xs cap"
proof -
  have "xs \<noteq> [] \<Longrightarrow> start (hd xs) = a \<Longrightarrow> block_end (last xs) = b \<Longrightarrow>
        (\<forall>i. Suc i < length xs \<longrightarrow> start (xs ! Suc i) = block_end (xs ! i)) \<Longrightarrow>
        (\<forall>i. i < length xs \<longrightarrow> 0 < size_kb (xs ! i)) \<Longrightarrow> chain a xs b" for a b
  proof (induction xs arbitrary: a)
    case Nil
    then show ?case by simp
  next
    case (Cons x xs)
    show ?case
    proof (cases xs)
      case Nil
      with Cons.prems show ?thesis by auto
    next
      case (Cons y ys)
      have 1: "start (hd xs) = block_end x" using Cons.prems(4) Cons by auto
      have 2: "block_end (last xs) = b" using Cons.prems(3) Cons by simp
      have 3: "\<forall>i. Suc i < length xs \<longrightarrow> start (xs ! Suc i) = block_end (xs ! i)"
      proof (intro allI impI)
        fix i assume "Suc i < length xs"
        then have "Suc (Suc i) < length (x # xs)" by simp
        with Cons.prems(4) have "start ((x # xs) ! Suc (Suc i)) = block_end ((x # xs) ! Suc i)"
          by blast
        then show "start (xs ! Suc i) = block_end (xs ! i)" by simp
      qed
      have 4: "\<forall>i. i < length xs \<longrightarrow> 0 < size_kb (xs ! i)"
      proof (intro allI impI)
        fix i assume "i < length xs"
        then have "Suc i < length (x # xs)" by simp
        with Cons.prems(5) have "0 < size_kb ((x # xs) ! Suc i)" by blast
        then show "0 < size_kb (xs ! i)" by simp
      qed
      have 5: "0 < size_kb x" using Cons.prems(5) by auto
      have "xs \<noteq> []" using Cons by simp
      from Cons.IH [OF this 1 2 3 4] 5 Cons.prems(2) show ?thesis by simp
    qed
  qed
  with assms show ?thesis unfolding partitions_capacity_def by blast
qed

lemma naf_no_adjacent_free: "naf xs \<longleftrightarrow> no_adjacent_free xs"
proof (induction xs rule: induct_list012)
  case 1
  then show ?case by (simp add: no_adjacent_free_def)
next
  case (2 x)
  then show ?case by (simp add: no_adjacent_free_def)
next
  case (3 x y zs)
  have "no_adjacent_free (x # y # zs) \<longleftrightarrow>
        \<not> (is_free x \<and> is_free y) \<and> no_adjacent_free (y # zs)"
  proof
    assume a: "no_adjacent_free (x # y # zs)"
    then have "\<not> (is_free ((x # y # zs) ! 0) \<and> is_free ((x # y # zs) ! Suc 0))"
      unfolding no_adjacent_free_def by (metis length_Cons Suc_less_eq zero_less_Suc)
    moreover have "no_adjacent_free (y # zs)"
      unfolding no_adjacent_free_def
    proof (intro allI impI)
      fix i assume "Suc i < length (y # zs)"
      then have "Suc (Suc i) < length (x # y # zs)" by simp
      with a have "\<not> (is_free ((x # y # zs) ! Suc i) \<and> is_free ((x # y # zs) ! Suc (Suc i)))"
        unfolding no_adjacent_free_def by blast
      then show "\<not> (is_free ((y # zs) ! i) \<and> is_free ((y # zs) ! Suc i))" by simp
    qed
    ultimately show "\<not> (is_free x \<and> is_free y) \<and> no_adjacent_free (y # zs)" by simp
  next
    assume a: "\<not> (is_free x \<and> is_free y) \<and> no_adjacent_free (y # zs)"
    show "no_adjacent_free (x # y # zs)"
      unfolding no_adjacent_free_def
    proof (intro allI impI)
      fix i assume i: "Suc i < length (x # y # zs)"
      show "\<not> (is_free ((x # y # zs) ! i) \<and> is_free ((x # y # zs) ! Suc i))"
      proof (cases i)
        case 0
        with a show ?thesis by simp
      next
        case (Suc j)
        with i have "Suc j < length (y # zs)" by simp
        with a have "\<not> (is_free ((y # zs) ! j) \<and> is_free ((y # zs) ! Suc j))"
          unfolding no_adjacent_free_def by blast
        with Suc show ?thesis by simp
      qed
    qed
  qed
  with 3 show ?case by simp
qed

subsection \<open>The block sequence after each call\<close>

lemma map_fun_upd_distinct:
  assumes "distinct xs" "i < length xs"
  shows "map (f(xs ! i := v)) xs = (map f xs)[i := v]"
proof (rule nth_equalityI)
  show "length (map (f(xs ! i := v)) xs) = length ((map f xs)[i := v])" by simp
next
  fix j assume "j < length (map (f(xs ! i := v)) xs)"
  then have j: "j < length xs" by simp
  show "map (f(xs ! i := v)) xs ! j = (map f xs)[i := v] ! j"
  proof (cases "j = i")
    case True
    with j show ?thesis by simp
  next
    case False
    with assms j have "xs ! j \<noteq> xs ! i" by (simp add: nth_eq_iff_index_eq)
    with False j show ?thesis by simp
  qed
qed

lemma initialize_memory_block_list:
  "block_list (initialize_memory s)
     = [\<lparr>start = 0, size_kb = total_memory s, is_free = True, process_name = None\<rparr>]"
  by (simp add: block_list_def initialize_memory_def new_block_def)

lemma allocate_whole_block_list:
  assumes h: "heap_ok s"
    and nd: "Some name \<notin> dom (process_map s)"
    and fb: "find_best_fit s (actual_size lc requested use_buddy) = Some i"
    and w: "\<not> actual_size lc requested use_buddy < size_kb (store s (blocks s ! i))"
  shows "block_list (snd (allocate lc s name requested use_buddy))
     = (block_list s)[i := (block_list s ! i)\<lparr>is_free := False, process_name := Some name\<rparr>]"
proof -
  have i: "i < length (blocks s)" using find_best_fit_Some [OF fb] by simp
  note F = allocate_whole [OF nd fb w]
  show ?thesis
    unfolding block_list_def F(4) F(5)
    using map_fun_upd_distinct [OF heap_okD(1) [OF h] i] i by simp
qed

lemma allocate_split_block_list:
  assumes h: "heap_ok s"
    and nd: "Some name \<notin> dom (process_map s)"
    and fb: "find_best_fit s (actual_size lc requested use_buddy) = Some i"
    and w: "actual_size lc requested use_buddy < size_kb (store s (blocks s ! i))"
  shows "block_list (snd (allocate lc s name requested use_buddy))
     = take i (block_list s)
       @ [\<lparr>start = start (block_list s ! i),
            size_kb = actual_size lc requested use_buddy,
            is_free = False, process_name = Some name\<rparr>,
          \<lparr>start = start (block_list s ! i) + actual_size lc requested use_buddy,
            size_kb = size_kb (block_list s ! i) - actual_size lc requested use_buddy,
            is_free = True, process_name = None\<rparr>]
       @ drop (Suc i) (block_list s)"
proof -
  let ?s' = "snd (allocate lc s name requested use_buddy)"
  have i: "i < length (blocks s)" using find_best_fit_Some [OF fb] by simp
  note F = allocate_split [OF nd fb w]
  have old: "\<And>r. r \<in> set (blocks s) \<Longrightarrow> store ?s' r = store s r"
  proof -
    fix r assume "r \<in> set (blocks s)"
    from heap_okD(2) [OF h this] show "store ?s' r = store s r" by (simp add: F(5))
  qed
  have t: "map (store ?s') (take i (blocks s)) = map (store s) (take i (blocks s))"
    by (rule map_cong [OF refl], rule old, erule in_set_takeD)
  have d: "map (store ?s') (drop (Suc i) (blocks s)) = map (store s) (drop (Suc i) (blocks s))"
    by (rule map_cong [OF refl], rule old, erule in_set_dropD)
  have n: "store ?s' (next_ref s) = \<lparr>start = start (store s (blocks s ! i)),
            size_kb = actual_size lc requested use_buddy,
            is_free = False, process_name = Some name\<rparr>"
    "store ?s' (Suc (next_ref s)) =
          \<lparr>start = start (store s (blocks s ! i)) + actual_size lc requested use_buddy,
            size_kb = size_kb (store s (blocks s ! i)) - actual_size lc requested use_buddy,
            is_free = True, process_name = None\<rparr>"
    by (simp_all add: F(5))
  have "map (store ?s') (blocks ?s')
      = map (store s) (take i (blocks s)) @ [store ?s' (next_ref s), store ?s' (Suc (next_ref s))]
        @ map (store s) (drop (Suc i) (blocks s))"
    unfolding F(4) by (simp add: t d)
  then show ?thesis
    unfolding block_list_def n using i by (simp add: take_map drop_map)
qed

lemma deallocate_block_list:
  assumes h: "heap_ok s" and g: "registry_ok s" and p: "process_map s (Some name) = Some r"
  shows "\<exists>j<length (blocks s). blocks s ! j = r \<and>
     block_list (snd (deallocate s name))
       = coalesce ((block_list s)[j := (block_list s ! j)\<lparr>is_free := True, process_name := None\<rparr>])"
proof -
  define s2 where "s2 = s\<lparr>store := free_first_owned (store s) name (blocks s),
                   process_map := (process_map s)(Some name := None)\<rparr>"
  from registry_okD(1) [OF g p] have "r \<in> set (blocks s)" by simp
  then obtain j where j: "j < length (blocks s)" "blocks s ! j = r"
    by (auto simp: in_set_conv_nth)
  have dom: "Some name \<in> dom (process_map s)" using p by auto
  have st: "store s2 = (store s)(blocks s ! j := (store s (blocks s ! j))\<lparr>is_free := True, process_name := None\<rparr>)"
    by (simp add: s2_def free_first_owned_registry [OF g p] j(2))
  have bl2: "block_list s2
      = (block_list s)[j := (block_list s ! j)\<lparr>is_free := True, process_name := None\<rparr>]"
    unfolding block_list_def st
    using map_fun_upd_distinct [OF heap_okD(1) [OF h] j(1)] j(1) by (simp add: s2_def)
  have "distinct (blocks s2)" using heap_okD(1) [OF h] by (simp add: s2_def)
  from merge_free_blocks_spec(1) [OF this] bl2
  have "block_list (snd (deallocate s name))
       = coalesce ((block_list s)[j := (block_list s ! j)\<lparr>is_free := True, process_name := None\<rparr>])"
    by (simp add: deallocate_found [OF dom] s2_def)
  with j show ?thesis by blast
qed

lemma naf_update_not_free:
  assumes "naf xs" "\<not> is_free v"
  shows "naf (xs[i := v])"
proof -
  have "no_adjacent_free (xs[i := v])"
    unfolding no_adjacent_free_def
  proof (intro allI impI)
    fix k assume k: "Suc k < length (xs[i := v])"
    then have k': "Suc k < length xs" by simp
    from assms(1) k' have x: "\<not> (is_free (xs ! k) \<and> is_free (xs ! Suc k))"
      unfolding naf_no_adjacent_free no_adjacent_free_def by blast
    show "\<not> (is_free (xs[i := v] ! k) \<and> is_free (xs[i := v] ! Suc k))"
    proof (cases "i = k \<or> i = Suc k")
      case True
      with k' assms(2) show ?thesis by (auto simp: nth_list_update)
    next
      case False
      with x show ?thesis by (simp add: nth_list_update)
    qed
  qed
  then show ?thesis by (simp add: naf_no_adjacent_free)
qed

lemma naf_split:
  assumes n: "naf xs" and i: "i < length xs" and f: "is_free (xs ! i)"
    and a: "\<not> is_free A" 
  shows "naf (take i xs @ [A, R] @ drop (Suc i) xs)"
proof -
  let ?pre = "take i xs" and ?post = "drop (Suc i) xs"
  have e: "xs = ?pre @ (xs ! i # ?post)" using i by (rule id_take_nth_drop)
  from n have "naf (?pre @ (xs ! i # ?post))" using e by simp
  then have np: "naf ?pre" and no: "naf (xs ! i # ?post)"
    unfolding naf_append by simp_all
  have "naf (R # ?post)"
  proof (cases ?post)
    case Nil
    then show ?thesis by simp
  next
    case (Cons y ys)
    with no f show ?thesis by simp
  qed
  with a have "naf (A # R # ?post)" by simp
  with np a have "naf (?pre @ (A # R # ?post))"
    unfolding naf_append by simp
  then show ?thesis by simp
qed

lemma chain_split:
  assumes c: "chain a xs b" and i: "i < length xs"
    and pos: "0 < k" "k < size_kb (xs ! i)"
  shows "chain a (take i xs
       @ [\<lparr>start = start (xs ! i), size_kb = k, is_free = fa, process_name = na\<rparr>,
          \<lparr>start = start (xs ! i) + k, size_kb = size_kb (xs ! i) - k,
            is_free = fr, process_name = nr\<rparr>]
       @ drop (Suc i) xs) b"
proof -
  let ?pre = "take i xs" and ?post = "drop (Suc i) xs"
  have e: "xs = ?pre @ (xs ! i # ?post)" using i by (rule id_take_nth_drop)
  from c have "chain a (?pre @ (xs ! i # ?post)) b" using e by simp
  then obtain m where m: "chain a ?pre m" "chain m (xs ! i # ?post) b"
    unfolding chain_append by blast
  have ar: "start (xs ! i) + k + (size_kb (xs ! i) - k) = start (xs ! i) + size_kb (xs ! i)"
    by simp
  from m(2) pos have "chain m
       ([\<lparr>start = start (xs ! i), size_kb = k, is_free = fa, process_name = na\<rparr>,
          \<lparr>start = start (xs ! i) + k, size_kb = size_kb (xs ! i) - k,
            is_free = fr, process_name = nr\<rparr>] @ ?post) b"
    by (auto simp: block_end_def ar)
  with m(1) show ?thesis unfolding chain_append by blast
qed

subsection \<open>The block-list invariant\<close>

lemma reachable_positive_reachable: "reachable_positive s \<Longrightarrow> reachable s"
  by (induction rule: reachable_positive.induct) (auto intro: reachable.intros)

lemma actual_size_positive:
  "use_buddy \<or> 0 < requested \<Longrightarrow> 0 < actual_size lc requested use_buddy"
  by (auto simp: actual_size_def round_to_power_of_2_def)

lemma tiled_initialize: "0 < total_memory s \<Longrightarrow> tiled (initialize_memory s)"
  by (simp add: tiled_def initialize_memory_block_list initialize_memory_fields block_end_def)

lemma tiled_invariant:
  assumes "tiled s"
  shows "block_list_invariant s"
proof -
  from assms have c: "chain 0 (block_list s) (total_memory s)" and p: "0 < total_memory s"
    and n: "naf (block_list s)"
    by (simp_all add: tiled_def)
  have "block_list s \<noteq> []"
  proof
    assume "block_list s = []"
    with c p show False by simp
  qed
  with c n show ?thesis
    by (simp add: block_list_invariant_def chain_partitions naf_no_adjacent_free)
qed

lemma invariant_chain_naf:
  assumes "block_list_invariant s"
  shows "chain 0 (block_list s) (total_memory s)" and "naf (block_list s)"
  using assms by (simp_all add: block_list_invariant_def partitions_chain naf_no_adjacent_free)

lemma tiled_allocate:
  assumes h: "heap_ok s" and t: "tiled s" and pos: "0 < actual_size lc requested use_buddy"
  shows "tiled (snd (allocate lc s name requested use_buddy))"
proof (cases "Some name \<in> dom (process_map s)")
  case True
  then show ?thesis using t by (simp add: allocate_duplicate)
next
  case nd: False
  from t have c: "chain 0 (block_list s) (total_memory s)" and p: "0 < total_memory s"
    and n: "naf (block_list s)"
    by (simp_all add: tiled_def)
  show ?thesis
  proof (cases "find_best_fit s (actual_size lc requested use_buddy)")
    case None
    then show ?thesis using t nd by (simp add: allocate_no_fit)
  next
    case (Some i)
    have i: "i < length (block_list s)" and fr: "is_free (block_list s ! i)"
      using find_best_fit_Some [OF Some] by (simp_all add: block_list_def fits_def)
    show ?thesis
    proof (cases "actual_size lc requested use_buddy < size_kb (store s (blocks s ! i))")
      case True
      then have lt: "actual_size lc requested use_buddy < size_kb (block_list s ! i)"
        using i by (simp add: block_list_def)
      note B = allocate_split_block_list [OF h nd Some True]
      have "chain 0 (block_list (snd (allocate lc s name requested use_buddy))) (total_memory s)"
        unfolding B by (rule chain_split [OF c i pos lt])
      moreover have "naf (block_list (snd (allocate lc s name requested use_buddy)))"
        unfolding B by (rule naf_split [OF n i fr]) simp
      ultimately show ?thesis
        using p by (simp add: tiled_def allocate_split(2) [OF nd Some True])
    next
      case False
      note B = allocate_whole_block_list [OF h nd Some False]
      have "chain 0 (block_list (snd (allocate lc s name requested use_buddy))) (total_memory s)"
        unfolding B using c i by (simp add: chain_update)
      moreover have "naf (block_list (snd (allocate lc s name requested use_buddy)))"
        unfolding B by (rule naf_update_not_free [OF n]) simp
      ultimately show ?thesis
        using p by (simp add: tiled_def allocate_whole(2) [OF nd Some False])
    qed
  qed
qed

lemma tiled_deallocate:
  assumes h: "heap_ok s" and g: "registry_ok s" and t: "tiled s"
  shows "tiled (snd (deallocate s name))"
proof (cases "Some name \<in> dom (process_map s)")
  case False
  then show ?thesis using t by (simp add: deallocate_not_found)
next
  case True
  then obtain r where p: "process_map s (Some name) = Some r" by auto
  from t have c: "chain 0 (block_list s) (total_memory s)" and pos: "0 < total_memory s"
    by (simp_all add: tiled_def)
  from deallocate_block_list [OF h g p] obtain j where j: "j < length (blocks s)"
    and B: "block_list (snd (deallocate s name))
       = coalesce ((block_list s)[j := (block_list s ! j)\<lparr>is_free := True, process_name := None\<rparr>])"
    by blast
  have tm: "total_memory (snd (deallocate s name)) = total_memory s"
  proof -
    have "distinct (blocks (s\<lparr>store := free_first_owned (store s) name (blocks s),
           process_map := (process_map s)(Some name := None)\<rparr>))"
      using heap_okD(1) [OF h] by simp
    from merge_free_blocks_spec(7) [OF this] show ?thesis
      by (simp add: deallocate_found [OF True])
  qed
  have "chain 0 ((block_list s)[j := (block_list s ! j)\<lparr>is_free := True, process_name := None\<rparr>])
          (total_memory s)"
    using c j by (simp add: chain_update block_list_def)
  then have "chain 0 (block_list (snd (deallocate s name))) (total_memory s)"
    unfolding B by (rule chain_coalesce)
  moreover have "naf (block_list (snd (deallocate s name)))"
    unfolding B by (rule naf_coalesce)
  ultimately show ?thesis using pos by (simp add: tiled_def tm)
qed

lemma allocated_values:
  "map (store s) (allocated_refs s) = filter (\<lambda>b. \<not> is_free b) (block_list s)"
  by (simp add: allocated_refs_def block_list_def filter_map comp_def)

lemma allocated_sizes:
  "sum_list (map (\<lambda>b. size_kb (store s b)) (allocated_refs s))
     = sum_list (map size_kb (filter (\<lambda>b. \<not> is_free b) (block_list s)))"
proof -
  have "map (\<lambda>b. size_kb (store s b)) (allocated_refs s)
      = map size_kb (map (store s) (allocated_refs s))" by simp
  then show ?thesis by (simp only: allocated_values)
qed

lemma tiled_compact:
  assumes h: "heap_ok s" and t: "tiled s"
  shows "tiled (snd (compact s))"
proof (cases "allocated_refs s = []")
  case True
  then show ?thesis using t by (simp add: compact_nothing)
next
  case ne: False
  have fresh: "\<forall>r\<in>set (blocks s). r < next_ref s" using heap_okD(2) [OF h] by blast
  from t have c: "chain 0 (block_list s) (total_memory s)" and pos: "0 < total_memory s"
    by (simp_all add: tiled_def)
  let ?vals = "filter (\<lambda>b. \<not> is_free b) (block_list s)"
  let ?used = "sum_list (map size_kb ?vals)"
  have vp: "\<forall>x\<in>set ?vals. 0 < size_kb x"
    using chain_positive [OF c] by simp
  have "\<forall>x\<in>set (block_list s). 0 < size_kb x" using chain_positive [OF c] by blast
  from sum_filter_le [OF this] chain_end [OF c]
  have le: "?used \<le> total_memory s" by simp
  have B: "block_list (snd (compact s))
     = relocate 0 ?vals
       @ (if 0 < total_memory s - ?used
          then [\<lparr>start = ?used, size_kb = total_memory s - ?used,
                 is_free = True, process_name = None\<rparr>]
          else [])"
    using compact_block_list [OF ne fresh] by (simp only: allocated_values allocated_sizes)
  have cr: "chain 0 (relocate 0 ?vals) ?used"
    using chain_relocate [OF vp, of 0] by simp
  have ch: "chain 0 (block_list (snd (compact s))) (total_memory s)"
  proof (cases "0 < total_memory s - ?used")
    case True
    have "chain ?used [\<lparr>start = ?used, size_kb = total_memory s - ?used,
                 is_free = True, process_name = None\<rparr>] (total_memory s)"
      using True by (simp add: block_end_def)
    with cr True show ?thesis unfolding B chain_append by auto
  next
    case False
    with le have "?used = total_memory s" by simp
    with cr False show ?thesis unfolding B by simp
  qed
  have nf: "naf (block_list (snd (compact s)))"
  proof -
    have "?vals \<noteq> []" using ne allocated_values [of s] by (metis map_is_Nil_conv)
    then have "\<not> is_free (last (relocate 0 ?vals))"
      by (intro relocate_not_free [of _ 0 ?vals] last_in_set) simp
    then show ?thesis
      unfolding B naf_append by (simp add: naf_relocate)
  qed
  from ch nf pos show ?thesis
    by (simp add: tiled_def compact_success(2) [OF ne fresh])
qed

lemma reachable_positive_tiled: "reachable_positive s \<Longrightarrow> tiled s"
proof (induction rule: reachable_positive.induct)
  case (pos_init capacity)
  then show ?case by (simp add: ImprovisedMemoryManager_def tiled_initialize)
next
  case (pos_allocate s use_buddy requested lc name)
  from reachable_ok [OF reachable_positive_reachable [OF pos_allocate(1)]]
  have "heap_ok s" by simp
  from tiled_allocate [OF this pos_allocate(3) actual_size_positive [OF pos_allocate(2)]]
  show ?case .
next
  case (pos_deallocate s name)
  from reachable_ok [OF reachable_positive_reachable [OF pos_deallocate(1)]]
  have "heap_ok s" "registry_ok s" by simp_all
  from tiled_deallocate [OF this pos_deallocate(2)] show ?case .
next
  case (pos_compact s)
  from reachable_ok [OF reachable_positive_reachable [OF pos_compact(1)]]
  have "heap_ok s" by simp
  from tiled_compact [OF this pos_compact(2)] show ?case .
next
  case (pos_reset_same s)
  then have "0 < total_memory s" by (simp add: tiled_def)
  then show ?case by (simp add: reset_def tiled_initialize)
next
  case (pos_reset s capacity)
  then have "0 < total_memory s" by (simp add: tiled_def)
  with pos_reset(2) show ?case by (simp add: reset_def tiled_initialize)
qed

text \<open>
  C1, as the code has it.  The engine checks neither capacities nor sizes.  For
  every state reached from a construction with a positive capacity by calls of
  \<open>allocate\<close> that reserve a positive size (rounding on, or a positive requested
  size), of \<open>deallocate\<close>, of \<open>compact\<close> and of \<open>reset\<close> with no capacity or a
  capacity that is not negative, the block sequence partitions
  \<open>[0, total_memory)\<close>: it starts at 0, every block starts where the previous one
  ends, the last one ends at \<open>total_memory\<close>, the starts ascend, all sizes are
  positive, and no two adjacent blocks are both free.
\<close>

theorem block_list_invariant_reachable_positive:
  "reachable_positive s \<Longrightarrow> block_list_invariant s"
  by (rule tiled_invariant) (rule reachable_positive_tiled)

theorem block_list_invariant_reachable_positive_witness:
  "reachable_positive (snd (allocate (\<lambda>_. 7) (ImprovisedMemoryManager 1024) ''X'' 100 True))
   \<and> block_list_invariant (snd (allocate (\<lambda>_. 7) (ImprovisedMemoryManager 1024) ''X'' 100 True))"
proof -
  have "reachable_positive (ImprovisedMemoryManager 1024)"
    by (rule pos_init) simp
  then have r: "reachable_positive
      (snd (allocate (\<lambda>_. 7) (ImprovisedMemoryManager 1024) ''X'' 100 True))"
    by (rule pos_allocate) simp
  from r block_list_invariant_reachable_positive [OF r] show ?thesis by simp
qed

text \<open>
  The claim for all reachable states fails: \<open>allocate\<close> without rounding accepts the
  requested size 0 and splits a block of size 0 off the free block.
\<close>

theorem block_list_invariant_counterexample:
  "reachable (snd (allocate (\<lambda>_. 0) (ImprovisedMemoryManager 1024) ''A'' 0 False))
   \<and> block_list (snd (allocate (\<lambda>_. 0) (ImprovisedMemoryManager 1024) ''A'' 0 False))
       = [\<lparr>start = 0, size_kb = 0, is_free = False, process_name = Some ''A''\<rparr>,
          \<lparr>start = 0, size_kb = 1024, is_free = True, process_name = None\<rparr>]
   \<and> \<not> block_list_invariant (snd (allocate (\<lambda>_. 0) (ImprovisedMemoryManager 1024) ''A'' 0 False))"
proof -
  let ?s = "snd (allocate (\<lambda>_. 0) (ImprovisedMemoryManager 1024) ''A'' 0 False)"
  have r: "reachable ?s" by (rule reach_allocate) (rule reach_init)
  have bl: "block_list ?s
       = [\<lparr>start = 0, size_kb = 0, is_free = False, process_name = Some ''A''\<rparr>,
          \<lparr>start = 0, size_kb = 1024, is_free = True, process_name = None\<rparr>]"
    by (simp add: allocate_def find_best_fit_def ImprovisedMemoryManager_def
        initialize_memory_def new_block_def list_insert_def block_list_def Let_def)
  have "\<not> block_list_invariant ?s"
  proof
    assume "block_list_invariant ?s"
    then have "\<forall>i. i < length (block_list ?s) \<longrightarrow> 0 < size_kb (block_list ?s ! i)"
      by (simp add: block_list_invariant_def partitions_capacity_def)
    then have "0 < length (block_list ?s) \<longrightarrow> 0 < size_kb (block_list ?s ! 0)" by blast
    then show False unfolding bl by simp
  qed
  with r bl show ?thesis by simp
qed

subsection \<open>Allocation followed by deallocation\<close>

lemma coalesce_free_pair:
  assumes n: "naf (pre @ old # post)" and fo: "is_free old"
    and fa: "is_free A" and fr: "is_free R"
    and e: "A\<lparr>size_kb := size_kb A + size_kb R\<rparr> = old"
  shows "coalesce (pre @ A # R # post) = pre @ old # post"
proof -
  from n have np: "naf pre" and no: "naf (old # post)"
    and lp: "pre \<noteq> [] \<longrightarrow> \<not> is_free (last pre)"
    unfolding naf_append using fo by simp_all
  have post: "coalesce_from old post = old # post"
    using no by (rule coalesce_from_naf)
  have inner: "coalesce (A # R # post) = old # post"
    using fa fr e post by (simp add: coalesce_def)
  show ?thesis
  proof (cases "pre = []")
    case True
    with inner show ?thesis by simp
  next
    case False
    with lp have "\<not> is_free (last pre)" by simp
    from coalesce_append_not_free [OF False this np, of "A # R # post"] inner
    show ?thesis by simp
  qed
qed

lemma deallocate_found_fields:
  assumes h: "heap_ok s" and d: "Some name \<in> dom (process_map s)"
  shows "fst (deallocate s name) = (True, Msg_deallocated name)"
    and "process_map (snd (deallocate s name)) = (process_map s)(Some name := None)"
    and "total_memory (snd (deallocate s name)) = total_memory s"
proof -
  have dd: "distinct (blocks (s\<lparr>store := free_first_owned (store s) name (blocks s),
           process_map := (process_map s)(Some name := None)\<rparr>))"
    using heap_okD(1) [OF h] by simp
  show "fst (deallocate s name) = (True, Msg_deallocated name)"
    by (simp add: deallocate_found [OF d])
  show "process_map (snd (deallocate s name)) = (process_map s)(Some name := None)"
    using merge_free_blocks_spec(8) [OF dd] by (simp add: deallocate_found [OF d])
  show "total_memory (snd (deallocate s name)) = total_memory s"
    using merge_free_blocks_spec(7) [OF dd] by (simp add: deallocate_found [OF d])
qed

lemma allocate_succeeds:
  assumes "fst (fst (allocate lc s name requested use_buddy))"
  shows "Some name \<notin> dom (process_map s)"
    and "\<exists>i. find_best_fit s (actual_size lc requested use_buddy) = Some i"
proof -
  show nd: "Some name \<notin> dom (process_map s)"
  proof
    assume "Some name \<in> dom (process_map s)"
    from allocate_duplicate [OF this] assms show False by simp
  qed
  show "\<exists>i. find_best_fit s (actual_size lc requested use_buddy) = Some i"
  proof (cases "find_best_fit s (actual_size lc requested use_buddy)")
    case None
    from allocate_no_fit [OF nd None] assms show ?thesis by simp
  next
    case (Some i)
    then show ?thesis by blast
  qed
qed

lemma roundtrip_block_list:
  assumes h: "heap_ok s" and g: "registry_ok s" and n: "naf (block_list s)"
    and ok: "fst (fst (allocate lc s name requested use_buddy))"
  shows "block_list (snd (deallocate (snd (allocate lc s name requested use_buddy)) name))
           = block_list s"
    and "process_map (snd (deallocate (snd (allocate lc s name requested use_buddy)) name))
           = process_map s"
    and "fst (deallocate (snd (allocate lc s name requested use_buddy)) name)
           = (True, Msg_deallocated name)"
    and "total_memory (snd (deallocate (snd (allocate lc s name requested use_buddy)) name))
           = total_memory s"
proof -
  let ?s1 = "snd (allocate lc s name requested use_buddy)"
  let ?s2 = "snd (deallocate ?s1 name)"
  let ?a = "actual_size lc requested use_buddy"
  let ?bl = "block_list s"
  from allocate_succeeds [OF ok] obtain i where nd: "Some name \<notin> dom (process_map s)"
    and fb: "find_best_fit s ?a = Some i" by blast
  have i: "i < length (blocks s)" and fr: "is_free (store s (blocks s ! i))"
    using find_best_fit_Some [OF fb] by (simp_all add: fits_def)
  have il: "i < length ?bl" and bi: "?bl ! i = store s (blocks s ! i)"
    using i by (simp_all add: block_list_def)
  have nm: "process_name (store s (blocks s ! i)) = None"
    using registry_okD(3) [OF g _ fr] i by simp
  have old: "?bl ! i = \<lparr>start = start (?bl ! i), size_kb = size_kb (?bl ! i),
        is_free = True, process_name = None\<rparr>"
    using fr nm bi by simp
  note h1 = allocate_ok(1) [OF h g, of lc name requested use_buddy]
  note g1 = allocate_ok(2) [OF h g, of lc name requested use_buddy]
  have pmnone: "process_map s (Some name) = None" using nd by auto
  have len1: "i < length (blocks ?s1)" and pm1: "process_map ?s1 = (process_map s)(Some name \<mapsto> blocks ?s1 ! i)"
    and tm1: "total_memory ?s1 = total_memory s"
  proof -
    show "i < length (blocks ?s1)"
      using i allocate_split(4) [OF nd fb] allocate_whole(4) [OF nd fb]
      by (cases "?a < size_kb (store s (blocks s ! i))") simp_all
    show "process_map ?s1 = (process_map s)(Some name \<mapsto> blocks ?s1 ! i)"
    proof (cases "?a < size_kb (store s (blocks s ! i))")
      case True
      have "(take i (blocks s) @ [next_ref s, Suc (next_ref s)] @ drop (Suc i) (blocks s)) ! i
          = next_ref s" using i by (simp add: nth_append)
      then show ?thesis
        by (simp add: allocate_split(4,6) [OF nd fb True])
    next
      case False
      then show ?thesis by (simp add: allocate_whole(4,6) [OF nd fb False])
    qed
    show "total_memory ?s1 = total_memory s"
      using allocate_split(2) [OF nd fb] allocate_whole(2) [OF nd fb]
      by (cases "?a < size_kb (store s (blocks s ! i))") simp_all
  qed
  have p1: "process_map ?s1 (Some name) = Some (blocks ?s1 ! i)" by (simp add: pm1)
  have d1: "Some name \<in> dom (process_map ?s1)" using p1 by auto
  from deallocate_block_list [OF h1 g1 p1] obtain j where j: "j < length (blocks ?s1)"
    "blocks ?s1 ! j = blocks ?s1 ! i"
    and B: "block_list ?s2
       = coalesce ((block_list ?s1)[j := (block_list ?s1 ! j)\<lparr>is_free := True, process_name := None\<rparr>])"
    by blast
  from j len1 heap_okD(1) [OF h1] have ji: "j = i" by (simp add: nth_eq_iff_index_eq)
  show "block_list ?s2 = ?bl"
  proof (cases "?a < size_kb (store s (blocks s ! i))")
    case True
    let ?A = "\<lparr>start = start (?bl ! i), size_kb = ?a, is_free = False, process_name = Some name\<rparr>"
    let ?A' = "\<lparr>start = start (?bl ! i), size_kb = ?a, is_free = True, process_name = None\<rparr>"
    let ?R = "\<lparr>start = start (?bl ! i) + ?a, size_kb = size_kb (?bl ! i) - ?a,
            is_free = True, process_name = None\<rparr>"
    have b1: "block_list ?s1 = take i ?bl @ [?A, ?R] @ drop (Suc i) ?bl"
      using allocate_split_block_list [OF h nd fb True] .
    have lt: "length (take i ?bl) = i" using il by simp
    have upd: "(block_list ?s1)[i := (block_list ?s1 ! i)\<lparr>is_free := True, process_name := None\<rparr>]
        = take i ?bl @ ?A' # ?R # drop (Suc i) ?bl"
      unfolding b1 using lt by (simp add: list_update_append nth_append)
    have e: "?bl = take i ?bl @ (?bl ! i) # drop (Suc i) ?bl"
      using il by (rule id_take_nth_drop)
    have n': "naf (take i ?bl @ (?bl ! i) # drop (Suc i) ?bl)" using n e by simp
    have fo: "is_free (?bl ! i)" using fr bi by simp
    have m: "?A'\<lparr>size_kb := size_kb ?A' + size_kb ?R\<rparr> = ?bl ! i"
      by (subst (3) old) simp
    have "coalesce (take i ?bl @ ?A' # ?R # drop (Suc i) ?bl)
        = take i ?bl @ (?bl ! i) # drop (Suc i) ?bl"
      by (rule coalesce_free_pair [OF n' fo _ _ m]) simp_all
    with e show ?thesis unfolding B ji upd by simp
  next
    case False
    have b1: "block_list ?s1 = ?bl[i := (?bl ! i)\<lparr>is_free := False, process_name := Some name\<rparr>]"
      using allocate_whole_block_list [OF h nd fb False] .
    have "(?bl ! i)\<lparr>is_free := True, process_name := None\<rparr> = ?bl ! i"
      by (subst (2) old) simp
    then have upd: "(block_list ?s1)[i := (block_list ?s1 ! i)\<lparr>is_free := True, process_name := None\<rparr>]
        = ?bl"
      unfolding b1 using il by (simp add: list_update_same_conv)
    show ?thesis unfolding B ji upd using n by (rule coalesce_naf)
  qed
  show "process_map ?s2 = process_map s"
    using deallocate_found_fields(2) [OF h1 d1] pmnone by (simp add: pm1 fun_upd_idem)
  show "fst (deallocate ?s1 name) = (True, Msg_deallocated name)"
    using deallocate_found_fields(1) [OF h1 d1] .
  show "total_memory ?s2 = total_memory s"
    using deallocate_found_fields(3) [OF h1 d1] tm1 by simp
qed

text \<open>
  C6.  In a reachable state that satisfies the block-list invariant, a successful
  \<open>allocate\<close> followed at once by \<open>deallocate\<close> of the same name succeeds and
  restores the layout: the free regions have the boundaries they had before (the
  whole sequence of block values is the one before the allocation), and the
  registry is the one before the allocation.
\<close>

theorem allocate_then_deallocate_restores:
  "reachable s \<Longrightarrow> block_list_invariant s \<Longrightarrow>
   fst (fst (allocate lc s name requested use_buddy)) \<Longrightarrow>
     fst (deallocate (snd (allocate lc s name requested use_buddy)) name)
       = (True, Msg_deallocated name)
   \<and> free_boundaries (snd (deallocate (snd (allocate lc s name requested use_buddy)) name))
       = free_boundaries s
   \<and> block_list (snd (deallocate (snd (allocate lc s name requested use_buddy)) name))
       = block_list s
   \<and> process_map (snd (deallocate (snd (allocate lc s name requested use_buddy)) name))
       = process_map s"
proof -
  assume r: "reachable s" and inv: "block_list_invariant s"
    and ok: "fst (fst (allocate lc s name requested use_buddy))"
  from reachable_ok [OF r] have h: "heap_ok s" and g: "registry_ok s" by simp_all
  note R = roundtrip_block_list [OF h g invariant_chain_naf(2) [OF inv] ok]
  from R(1) have "free_boundaries (snd (deallocate (snd (allocate lc s name requested use_buddy)) name))
       = free_boundaries s"
    by (simp add: free_boundaries_def)
  with R show ?thesis by simp
qed

theorem allocate_then_deallocate_restores_witness:
  "reachable (ImprovisedMemoryManager 1024)
   \<and> block_list_invariant (ImprovisedMemoryManager 1024)
   \<and> fst (fst (allocate (\<lambda>_. 7) (ImprovisedMemoryManager 1024) ''X'' 100 True))
   \<and> block_list (snd (deallocate
         (snd (allocate (\<lambda>_. 7) (ImprovisedMemoryManager 1024) ''X'' 100 True)) ''X''))
       = block_list (ImprovisedMemoryManager 1024)
   \<and> process_map (snd (deallocate
         (snd (allocate (\<lambda>_. 7) (ImprovisedMemoryManager 1024) ''X'' 100 True)) ''X''))
       = process_map (ImprovisedMemoryManager 1024)"
proof -
  have r: "reachable (ImprovisedMemoryManager 1024)" by (rule reach_init)
  have "reachable_positive (ImprovisedMemoryManager 1024)" by (rule pos_init) simp
  then have inv: "block_list_invariant (ImprovisedMemoryManager 1024)"
    by (intro tiled_invariant reachable_positive_tiled)
  have ok: "fst (fst (allocate (\<lambda>_. 7) (ImprovisedMemoryManager 1024) ''X'' 100 True))"
    by (simp add: allocate_def find_best_fit_def ImprovisedMemoryManager_def
        initialize_memory_def new_block_def round_to_power_of_2_def Let_def)
  from r inv ok allocate_then_deallocate_restores [OF r inv ok] show ?thesis by simp
qed

subsection \<open>Best fit\<close>

lemma owns_block_registry:
  assumes g: "registry_ok s"
  shows "owns_block s name \<longleftrightarrow> Some name \<in> dom (process_map s)"
proof
  assume "owns_block s name"
  then obtain r where r: "r \<in> set (blocks s)" "\<not> is_free (store s r)"
    "process_name (store s r) = Some name"
    by (auto simp: owns_block_def block_list_def)
  from registry_okD(2) [OF g r(1,2)] r(3) show "Some name \<in> dom (process_map s)" by auto
next
  assume "Some name \<in> dom (process_map s)"
  then obtain r where "process_map s (Some name) = Some r" by auto
  from registry_okD(1) [OF g this] show "owns_block s name"
    by (auto simp: owns_block_def block_list_def)
qed

lemma allocate_registers:
  assumes nd: "Some name \<notin> dom (process_map s)"
    and fb: "find_best_fit s (actual_size lc requested use_buddy) = Some i"
  shows "i < length (blocks (snd (allocate lc s name requested use_buddy)))"
    and "process_map (snd (allocate lc s name requested use_buddy))
           = (process_map s)(Some name \<mapsto> blocks (snd (allocate lc s name requested use_buddy)) ! i)"
    and "total_memory (snd (allocate lc s name requested use_buddy)) = total_memory s"
    and "fst (allocate lc s name requested use_buddy)
           = (True, Msg_allocated name (actual_size lc requested use_buddy),
              Some (start (store s (blocks s ! i))))"
proof -
  let ?s1 = "snd (allocate lc s name requested use_buddy)"
  let ?a = "actual_size lc requested use_buddy"
  have i: "i < length (blocks s)" using find_best_fit_Some [OF fb] by simp
  show "i < length (blocks ?s1)"
    using i allocate_split(4) [OF nd fb] allocate_whole(4) [OF nd fb]
    by (cases "?a < size_kb (store s (blocks s ! i))") simp_all
  show "process_map ?s1 = (process_map s)(Some name \<mapsto> blocks ?s1 ! i)"
  proof (cases "?a < size_kb (store s (blocks s ! i))")
    case True
    have "(take i (blocks s) @ [next_ref s, Suc (next_ref s)] @ drop (Suc i) (blocks s)) ! i
        = next_ref s" using i by (simp add: nth_append)
    then show ?thesis
      by (simp add: allocate_split(4,6) [OF nd fb True])
  next
    case False
    then show ?thesis by (simp add: allocate_whole(4,6) [OF nd fb False])
  qed
  show "total_memory ?s1 = total_memory s"
    using allocate_split(2) [OF nd fb] allocate_whole(2) [OF nd fb]
    by (cases "?a < size_kb (store s (blocks s ! i))") simp_all
  show "fst (allocate lc s name requested use_buddy)
           = (True, Msg_allocated name ?a, Some (start (store s (blocks s ! i))))"
    using allocate_split(1) [OF nd fb] allocate_whole(1) [OF nd fb]
    by (cases "?a < size_kb (store s (blocks s ! i))") simp_all
qed

text \<open>
  C2, as the code has it.  In every reachable state: a name that owns a block is
  refused; otherwise the reserved size is computed by the rounding rule and the
  call is refused when no free block is that large; otherwise the chosen block is
  a free block of least size among those large enough, the first such block of the
  sequence (the one of lowest address when the block-list invariant holds), it is
  consumed when its size is the reserved size and split otherwise, the registry
  gains the name, mapped to the allocated block, and the start of the chosen block
  is returned.
\<close>

theorem allocate_best_fit:
  "reachable s \<Longrightarrow>
   (owns_block s name \<longrightarrow>
      allocate lc s name requested use_buddy = ((False, Msg_already_allocated name, None), s))
   \<and> (\<not> owns_block s name
        \<and> (\<forall>b. b \<in> set (block_list s) \<longrightarrow>
              \<not> (is_free b \<and> actual_size lc requested use_buddy \<le> size_kb b)) \<longrightarrow>
      allocate lc s name requested use_buddy = ((False, Msg_no_suitable_block, None), s))
   \<and> (\<not> owns_block s name
        \<and> (\<exists>b. b \<in> set (block_list s)
              \<and> is_free b \<and> actual_size lc requested use_buddy \<le> size_kb b) \<longrightarrow>
      (\<exists>i. i < length (block_list s)
         \<and> is_free (block_list s ! i)
         \<and> actual_size lc requested use_buddy \<le> size_kb (block_list s ! i)
         \<and> (\<forall>j. j < length (block_list s) \<and> is_free (block_list s ! j)
                \<and> actual_size lc requested use_buddy \<le> size_kb (block_list s ! j) \<longrightarrow>
                size_kb (block_list s ! i) \<le> size_kb (block_list s ! j)
                \<and> (size_kb (block_list s ! j) = size_kb (block_list s ! i) \<longrightarrow>
                      i \<le> j
                      \<and> (block_list_invariant s \<longrightarrow>
                            start (block_list s ! i) \<le> start (block_list s ! j))))
         \<and> fst (allocate lc s name requested use_buddy)
             = (True, Msg_allocated name (actual_size lc requested use_buddy),
                Some (start (block_list s ! i)))
         \<and> block_list (snd (allocate lc s name requested use_buddy))
             = (if size_kb (block_list s ! i) = actual_size lc requested use_buddy
                then (block_list s)
                       [i := (block_list s ! i)\<lparr>is_free := False, process_name := Some name\<rparr>]
                else take i (block_list s)
                     @ [\<lparr>start = start (block_list s ! i),
                          size_kb = actual_size lc requested use_buddy,
                          is_free = False, process_name = Some name\<rparr>,
                        \<lparr>start = start (block_list s ! i) + actual_size lc requested use_buddy,
                          size_kb = size_kb (block_list s ! i)
                                      - actual_size lc requested use_buddy,
                          is_free = True, process_name = None\<rparr>]
                     @ drop (Suc i) (block_list s))
         \<and> process_map (snd (allocate lc s name requested use_buddy))
             = (process_map s)
                 (Some name \<mapsto> blocks (snd (allocate lc s name requested use_buddy)) ! i)))"
proof -
  assume r: "reachable s"
  from reachable_ok [OF r] have h: "heap_ok s" and g: "registry_ok s" by simp_all
  let ?a = "actual_size lc requested use_buddy"
  let ?bl = "block_list s"
  let ?s1 = "snd (allocate lc s name requested use_buddy)"
  note ob = owns_block_registry [OF g, of name]
  have fits_bl: "(\<exists>b. b \<in> set ?bl \<and> is_free b \<and> ?a \<le> size_kb b)
      \<longleftrightarrow> (\<exists>r\<in>set (blocks s). fits (store s) ?a r)"
    by (auto simp: block_list_def fits_def)
  have c1: "owns_block s name \<longrightarrow>
      allocate lc s name requested use_buddy = ((False, Msg_already_allocated name, None), s)"
    using ob by (simp add: allocate_duplicate)
  have c2: "\<not> owns_block s name
        \<and> (\<forall>b. b \<in> set ?bl \<longrightarrow> \<not> (is_free b \<and> ?a \<le> size_kb b)) \<longrightarrow>
      allocate lc s name requested use_buddy = ((False, Msg_no_suitable_block, None), s)"
  proof
    assume a: "\<not> owns_block s name
        \<and> (\<forall>b. b \<in> set ?bl \<longrightarrow> \<not> (is_free b \<and> ?a \<le> size_kb b))"
    then have nd: "Some name \<notin> dom (process_map s)" using ob by simp
    from a fits_bl have "\<forall>r\<in>set (blocks s). \<not> fits (store s) ?a r" by blast
    then have "find_best_fit s ?a = None" by (simp add: find_best_fit_None)
    from allocate_no_fit [OF nd this]
    show "allocate lc s name requested use_buddy = ((False, Msg_no_suitable_block, None), s)" .
  qed
  have c3: "\<not> owns_block s name
        \<and> (\<exists>b. b \<in> set ?bl \<and> is_free b \<and> ?a \<le> size_kb b) \<longrightarrow>
      (\<exists>i. i < length ?bl
         \<and> is_free (?bl ! i) \<and> ?a \<le> size_kb (?bl ! i)
         \<and> (\<forall>j. j < length ?bl \<and> is_free (?bl ! j) \<and> ?a \<le> size_kb (?bl ! j) \<longrightarrow>
                size_kb (?bl ! i) \<le> size_kb (?bl ! j)
                \<and> (size_kb (?bl ! j) = size_kb (?bl ! i) \<longrightarrow>
                      i \<le> j
                      \<and> (block_list_invariant s \<longrightarrow> start (?bl ! i) \<le> start (?bl ! j))))
         \<and> fst (allocate lc s name requested use_buddy)
             = (True, Msg_allocated name ?a, Some (start (?bl ! i)))
         \<and> block_list ?s1
             = (if size_kb (?bl ! i) = ?a
                then ?bl[i := (?bl ! i)\<lparr>is_free := False, process_name := Some name\<rparr>]
                else take i ?bl
                     @ [\<lparr>start = start (?bl ! i), size_kb = ?a,
                          is_free = False, process_name = Some name\<rparr>,
                        \<lparr>start = start (?bl ! i) + ?a, size_kb = size_kb (?bl ! i) - ?a,
                          is_free = True, process_name = None\<rparr>]
                     @ drop (Suc i) ?bl)
         \<and> process_map ?s1 = (process_map s)(Some name \<mapsto> blocks ?s1 ! i))"
  proof
    assume a: "\<not> owns_block s name
        \<and> (\<exists>b. b \<in> set ?bl \<and> is_free b \<and> ?a \<le> size_kb b)"
    then have nd: "Some name \<notin> dom (process_map s)" using ob by simp
    from a fits_bl have "\<not> (\<forall>r\<in>set (blocks s). \<not> fits (store s) ?a r)" by blast
    then have "find_best_fit s ?a \<noteq> None" by (simp add: find_best_fit_None)
    then obtain i where fb: "find_best_fit s ?a = Some i" by auto
    note S = find_best_fit_Some [OF fb]
    have i: "i < length (blocks s)" using S by simp
    have il: "i < length ?bl" using i by (simp add: block_list_def)
    have nth: "\<And>j. j < length ?bl \<Longrightarrow> ?bl ! j = store s (blocks s ! j)"
      by (simp add: block_list_def)
    have fi: "is_free (?bl ! i)" "?a \<le> size_kb (?bl ! i)"
      using S il by (simp_all add: nth fits_def)
    have best: "\<forall>j. j < length ?bl \<and> is_free (?bl ! j) \<and> ?a \<le> size_kb (?bl ! j) \<longrightarrow>
                size_kb (?bl ! i) \<le> size_kb (?bl ! j)
                \<and> (size_kb (?bl ! j) = size_kb (?bl ! i) \<longrightarrow>
                      i \<le> j
                      \<and> (block_list_invariant s \<longrightarrow> start (?bl ! i) \<le> start (?bl ! j)))"
    proof (intro allI impI)
      fix j assume j: "j < length ?bl \<and> is_free (?bl ! j) \<and> ?a \<le> size_kb (?bl ! j)"
      then have jl: "j < length (blocks s)" by (simp add: block_list_def)
      from j have "is_free (?bl ! j)" "?a \<le> size_kb (?bl ! j)" by simp_all
      with jl have fj: "fits (store s) ?a (blocks s ! j)"
        by (simp add: block_list_def fits_def)
      from S jl fj have m: "size_kb (store s (blocks s ! i)) \<le> size_kb (store s (blocks s ! j))"
        and t: "size_kb (store s (blocks s ! j)) = size_kb (store s (blocks s ! i)) \<longrightarrow> i \<le> j"
        by blast+
      have addr: "start (?bl ! i) \<le> start (?bl ! j)" if "i \<le> j" "block_list_invariant s"
      proof (cases "i = j")
        case True
        then show ?thesis by simp
      next
        case False
        with that(1) have "i < j" by simp
        from chain_ascending [OF invariant_chain_naf(1) [OF that(2)] this] j
        show ?thesis by simp
      qed
      from m t addr j il
      show "size_kb (?bl ! i) \<le> size_kb (?bl ! j)
                \<and> (size_kb (?bl ! j) = size_kb (?bl ! i) \<longrightarrow>
                      i \<le> j
                      \<and> (block_list_invariant s \<longrightarrow> start (?bl ! i) \<le> start (?bl ! j)))"
        by (simp add: nth)
    qed
    note A = allocate_registers [OF nd fb]
    have res: "fst (allocate lc s name requested use_buddy)
             = (True, Msg_allocated name ?a, Some (start (?bl ! i)))"
      using A(4) il by (simp add: nth)
    have blk: "block_list ?s1
             = (if size_kb (?bl ! i) = ?a
                then ?bl[i := (?bl ! i)\<lparr>is_free := False, process_name := Some name\<rparr>]
                else take i ?bl
                     @ [\<lparr>start = start (?bl ! i), size_kb = ?a,
                          is_free = False, process_name = Some name\<rparr>,
                        \<lparr>start = start (?bl ! i) + ?a, size_kb = size_kb (?bl ! i) - ?a,
                          is_free = True, process_name = None\<rparr>]
                     @ drop (Suc i) ?bl)"
    proof (cases "?a < size_kb (store s (blocks s ! i))")
      case True
      then have "size_kb (?bl ! i) \<noteq> ?a" using il by (simp add: nth)
      with allocate_split_block_list [OF h nd fb True] show ?thesis by simp
    next
      case False
      with fi(2) have "size_kb (?bl ! i) = ?a" using il by (simp add: nth)
      with allocate_whole_block_list [OF h nd fb False] show ?thesis by simp
    qed
    from il fi best res blk A(2)
    show "\<exists>i. i < length ?bl
         \<and> is_free (?bl ! i) \<and> ?a \<le> size_kb (?bl ! i)
         \<and> (\<forall>j. j < length ?bl \<and> is_free (?bl ! j) \<and> ?a \<le> size_kb (?bl ! j) \<longrightarrow>
                size_kb (?bl ! i) \<le> size_kb (?bl ! j)
                \<and> (size_kb (?bl ! j) = size_kb (?bl ! i) \<longrightarrow>
                      i \<le> j
                      \<and> (block_list_invariant s \<longrightarrow> start (?bl ! i) \<le> start (?bl ! j))))
         \<and> fst (allocate lc s name requested use_buddy)
             = (True, Msg_allocated name ?a, Some (start (?bl ! i)))
         \<and> block_list ?s1
             = (if size_kb (?bl ! i) = ?a
                then ?bl[i := (?bl ! i)\<lparr>is_free := False, process_name := Some name\<rparr>]
                else take i ?bl
                     @ [\<lparr>start = start (?bl ! i), size_kb = ?a,
                          is_free = False, process_name = Some name\<rparr>,
                        \<lparr>start = start (?bl ! i) + ?a, size_kb = size_kb (?bl ! i) - ?a,
                          is_free = True, process_name = None\<rparr>]
                     @ drop (Suc i) ?bl)
         \<and> process_map ?s1 = (process_map s)(Some name \<mapsto> blocks ?s1 ! i)"
      by blast
  qed
  from c1 c2 c3 show ?thesis by blast
qed

theorem allocate_best_fit_witness:
  "reachable (ImprovisedMemoryManager 1024)
   \<and> \<not> owns_block (ImprovisedMemoryManager 1024) ''X''
   \<and> block_list (ImprovisedMemoryManager 1024)
       = [\<lparr>start = 0, size_kb = 1024, is_free = True, process_name = None\<rparr>]
   \<and> actual_size (\<lambda>_. 7) 100 True = 128
   \<and> fst (allocate (\<lambda>_. 7) (ImprovisedMemoryManager 1024) ''X'' 100 True)
       = (True, Msg_allocated ''X'' 128, Some 0)
   \<and> owns_block (snd (allocate (\<lambda>_. 7) (ImprovisedMemoryManager 1024) ''X'' 100 True)) ''X''
   \<and> allocate (\<lambda>_. 7) (snd (allocate (\<lambda>_. 7) (ImprovisedMemoryManager 1024) ''X'' 100 True))
         ''X'' 1 True
       = ((False, Msg_already_allocated ''X'', None),
          snd (allocate (\<lambda>_. 7) (ImprovisedMemoryManager 1024) ''X'' 100 True))"
proof -
  let ?s0 = "ImprovisedMemoryManager 1024"
  let ?s1 = "snd (allocate (\<lambda>_. 7) ?s0 ''X'' 100 True)"
  have r: "reachable ?s0" by (rule reach_init)
  have r1: "reachable ?s1" using r by (rule reach_allocate)
  have bl0: "block_list ?s0
       = [\<lparr>start = 0, size_kb = 1024, is_free = True, process_name = None\<rparr>]"
    by (simp add: ImprovisedMemoryManager_def initialize_memory_block_list)
  have a: "actual_size (\<lambda>_. 7) 100 True = 128"
    by (simp add: actual_size_def round_to_power_of_2_def)
  have no: "\<not> owns_block ?s0 ''X''"
    by (simp add: owns_block_def bl0)
  have ex: "\<exists>b. b \<in> set (block_list ?s0) \<and> is_free b \<and> actual_size (\<lambda>_. 7) 100 True \<le> size_kb b"
    by (simp add: bl0 a)
  from allocate_best_fit [OF r, where name = "''X''" and lc = "\<lambda>_. 7" and requested = 100
      and use_buddy = True] no ex
  obtain i where i: "i < length (block_list ?s0)"
    and res: "fst (allocate (\<lambda>_. 7) ?s0 ''X'' 100 True)
       = (True, Msg_allocated ''X'' (actual_size (\<lambda>_. 7) 100 True),
          Some (start (block_list ?s0 ! i)))"
    by blast
  from i have "i = 0" by (simp add: bl0)
  with res have res': "fst (allocate (\<lambda>_. 7) ?s0 ''X'' 100 True)
       = (True, Msg_allocated ''X'' 128, Some 0)"
    by (simp add: a bl0)
  have bl1: "block_list ?s1
       = [\<lparr>start = 0, size_kb = 128, is_free = False, process_name = Some ''X''\<rparr>,
          \<lparr>start = 128, size_kb = 896, is_free = True, process_name = None\<rparr>]"
    by (simp add: allocate_def find_best_fit_def ImprovisedMemoryManager_def
        initialize_memory_def new_block_def list_insert_def block_list_def Let_def
        round_to_power_of_2_def)
  have ow: "owns_block ?s1 ''X''"
    unfolding owns_block_def bl1
    by (rule exI [of _ "\<lparr>start = 0, size_kb = 128, is_free = False,
                          process_name = Some ''X''\<rparr>"]) simp
  from allocate_best_fit [OF r1, where name = "''X''" and lc = "\<lambda>_. 7" and requested = 1
      and use_buddy = True] ow
  have dup: "allocate (\<lambda>_. 7) ?s1 ''X'' 1 True = ((False, Msg_already_allocated ''X'', None), ?s1)"
    by blast
  from r no bl0 a res' ow dup show ?thesis by blast
qed

text \<open>
  The claim fails on the tie-break for all reachable states.  In the state below
  two free blocks have size 2, at addresses 0 and -18; \<open>allocate\<close> of size 2 takes
  the first of the sequence, at address 0, not the one of lowest address.
\<close>

theorem allocate_tie_break_counterexample:
  "reachable tie_state
   \<and> block_list tie_state =
     [\<lparr>start = 0, size_kb = 2, is_free = True, process_name = None\<rparr>,
      \<lparr>start = 2, size_kb = -20, is_free = False, process_name = Some ''B''\<rparr>,
      \<lparr>start = -18, size_kb = 2, is_free = True, process_name = None\<rparr>,
      \<lparr>start = -16, size_kb = 26, is_free = False, process_name = Some ''D''\<rparr>]
   \<and> fst (allocate (\<lambda>_. 0) tie_state ''E'' 2 False) = (True, Msg_allocated ''E'' 2, Some 0)"
proof -
  have r: "reachable tie_state"
    unfolding tie_state_def
    by (intro reach_deallocate reach_allocate reach_init)
  have bl: "block_list tie_state =
     [\<lparr>start = 0, size_kb = 2, is_free = True, process_name = None\<rparr>,
      \<lparr>start = 2, size_kb = -20, is_free = False, process_name = Some ''B''\<rparr>,
      \<lparr>start = -18, size_kb = 2, is_free = True, process_name = None\<rparr>,
      \<lparr>start = -16, size_kb = 26, is_free = False, process_name = Some ''D''\<rparr>]"
    by (simp add: tie_state_def allocate_def deallocate_def merge_free_blocks_def
      find_best_fit_def ImprovisedMemoryManager_def
      initialize_memory_def new_block_def list_insert_def block_list_def Let_def)
  have al: "fst (allocate (\<lambda>_. 0) tie_state ''E'' 2 False)
      = (True, Msg_allocated ''E'' 2, Some 0)"
    by (simp add: tie_state_def allocate_def deallocate_def merge_free_blocks_def
      find_best_fit_def ImprovisedMemoryManager_def
      initialize_memory_def new_block_def list_insert_def block_list_def Let_def)
  from r bl al show ?thesis by blast
qed

subsection \<open>Compaction\<close>

lemma chain_sorted: "chain a xs b \<Longrightarrow> sorted_wrt (\<lambda>x y. start x < start y) xs"
proof -
  assume c: "chain a xs b"
  have "\<forall>i j. i < j \<longrightarrow> j < length xs \<longrightarrow> start (xs ! i) < start (xs ! j)"
    using chain_ascending [OF c] by blast
  then show ?thesis by (simp add: sorted_wrt_iff_nth_less)
qed

lemma compact_values:
  assumes h: "heap_ok s" and ne: "filter (\<lambda>b. \<not> is_free b) (block_list s) \<noteq> []"
  defines "vals \<equiv> filter (\<lambda>b. \<not> is_free b) (block_list s)"
  defines "used \<equiv> sum_list (map size_kb vals)"
  shows "fst (compact s) = (True, Msg_compacted, length vals)"
    and "total_memory (snd (compact s)) = total_memory s"
    and "block_list (snd (compact s))
           = relocate 0 vals
             @ (if 0 < total_memory s - used
                then [\<lparr>start = used, size_kb = total_memory s - used, is_free = True,
                       process_name = None\<rparr>]
                else [])"
    and "\<forall>i. i < length vals \<longrightarrow> blocks (snd (compact s)) ! i = next_ref s + i"
    and "\<forall>i. i < length vals \<longrightarrow>
           process_name (vals ! i) = process_name (store s (allocated_refs s ! i))"
    and "length (allocated_refs s) = length vals"
proof -
  have av: "map (store s) (allocated_refs s) = vals"
    by (simp add: vals_def allocated_values)
  have len: "length (allocated_refs s) = length vals"
    using av by (metis length_map)
  have ne': "allocated_refs s \<noteq> []" using ne av vals_def by auto
  have fresh: "\<forall>r\<in>set (blocks s). r < next_ref s" using heap_okD(2) [OF h] by blast
  note F = compact_success [OF ne' fresh]
  show "fst (compact s) = (True, Msg_compacted, length vals)"
    using F(1) len by simp
  show "total_memory (snd (compact s)) = total_memory s" using F(2) .
  show "block_list (snd (compact s))
           = relocate 0 vals
             @ (if 0 < total_memory s - used
                then [\<lparr>start = used, size_kb = total_memory s - used, is_free = True,
                       process_name = None\<rparr>]
                else [])"
    using compact_block_list [OF ne' fresh]
    by (simp only: allocated_values allocated_sizes vals_def used_def)
  show "\<forall>i. i < length vals \<longrightarrow> blocks (snd (compact s)) ! i = next_ref s + i"
    using F(3) len by (simp add: nth_append)
  show "\<forall>i. i < length vals \<longrightarrow>
           process_name (vals ! i) = process_name (store s (allocated_refs s ! i))"
  proof (intro allI impI)
    fix i assume "i < length vals"
    then have "i < length (allocated_refs s)" using len by simp
    then have "map (store s) (allocated_refs s) ! i = store s (allocated_refs s ! i)" by simp
    then show "process_name (vals ! i) = process_name (store s (allocated_refs s ! i))"
      by (simp add: av)
  qed
  show "length (allocated_refs s) = length vals" by (rule len)
qed

lemma compact_registry:
  assumes h: "heap_ok s" and g: "registry_ok s"
    and ne: "filter (\<lambda>b. \<not> is_free b) (block_list s) \<noteq> []"
  defines "vals \<equiv> filter (\<lambda>b. \<not> is_free b) (block_list s)"
  shows "\<forall>i. i < length vals \<longrightarrow>
           process_map (snd (compact s)) (process_name (vals ! i))
             = Some (blocks (snd (compact s)) ! i)"
    and "dom (process_map (snd (compact s))) = dom (process_map s)"
proof -
  have av: "map (store s) (allocated_refs s) = vals"
    by (simp add: vals_def allocated_values)
  have ne': "allocated_refs s \<noteq> []" using ne av vals_def by auto
  have fresh: "\<forall>r\<in>set (blocks s). r < next_ref s" using heap_okD(2) [OF h] by blast
  note F = compact_success [OF ne' fresh]
  note V = compact_values [OF h ne, folded vals_def]
  note dn = allocated_names_distinct [OF h g]
  have pm_i: "\<And>i. i < length vals \<Longrightarrow>
      process_map (snd (compact s)) (process_name (store s (allocated_refs s ! i)))
        = Some (next_ref s + i)"
    using F(9) dn V(6) by simp
  show "\<forall>i. i < length vals \<longrightarrow>
           process_map (snd (compact s)) (process_name (vals ! i))
             = Some (blocks (snd (compact s)) ! i)"
    using pm_i V(4,5) by simp
  have names: "(\<lambda>b. process_name (store s b)) ` set (allocated_refs s) = dom (process_map s)"
  proof (intro set_eqI iffI)
    fix k assume "k \<in> (\<lambda>b. process_name (store s b)) ` set (allocated_refs s)"
    then obtain b where b: "b \<in> set (blocks s)" "\<not> is_free (store s b)"
      "k = process_name (store s b)"
      by (auto simp: allocated_refs_set)
    from registry_okD(2) [OF g b(1,2)] b(3) show "k \<in> dom (process_map s)" by auto
  next
    fix k assume "k \<in> dom (process_map s)"
    then obtain r where "process_map s k = Some r" by auto
    from registry_okD(1) [OF g this]
    show "k \<in> (\<lambda>b. process_name (store s b)) ` set (allocated_refs s)"
      by (auto simp: allocated_refs_set)
  qed
  show "dom (process_map (snd (compact s))) = dom (process_map s)"
  proof (intro set_eqI iffI)
    fix k assume k: "k \<in> dom (process_map (snd (compact s)))"
    show "k \<in> dom (process_map s)"
    proof (cases "k \<in> (\<lambda>b. process_name (store s b)) ` set (allocated_refs s)")
      case True
      with names show ?thesis by simp
    next
      case False
      with F(8) have "process_map (snd (compact s)) k = process_map s k" by blast
      with k show ?thesis by (simp add: dom_def)
    qed
  next
    fix k assume "k \<in> dom (process_map s)"
    with names have "k \<in> (\<lambda>b. process_name (store s b)) ` set (allocated_refs s)" by simp
    then obtain i where i: "i < length (allocated_refs s)"
      "k = process_name (store s (allocated_refs s ! i))"
      by (auto simp: in_set_conv_nth)
    with pm_i [of i] V(6) show "k \<in> dom (process_map (snd (compact s)))" by auto
  qed
qed

lemma compact_one_free:
  assumes h: "heap_ok s" and ne: "filter (\<lambda>b. \<not> is_free b) (block_list s) \<noteq> []"
  shows "length (filter is_free (block_list (snd (compact s)))) \<le> 1"
proof -
  have "filter is_free (relocate 0 xs) = []" for xs
    using relocate_not_free [of _ 0 xs] by (simp add: filter_empty_conv)
  then show ?thesis
    unfolding compact_values(3) [OF h ne] by simp
qed

text \<open>
  C3, as the code has it.  In every reachable state \<open>compact\<close> fails, with the state
  unchanged, exactly when no block is allocated.  Otherwise it returns the number
  of allocated blocks and builds a new block sequence: the allocated blocks in the
  order they had in the sequence, placed one after the other from address 0, each
  with its size and owner, followed by one free block over the rest of the
  capacity when that rest is positive.  The registry keeps its keys and maps each
  owner to its new block, and at most one block is free.  When the block-list
  invariant holds, the free block is left out exactly when the allocated blocks
  fill the capacity, and the order of the sequence is the order of the addresses,
  before and after.
\<close>

theorem compact_relocates:
  "reachable s \<Longrightarrow>
   (let vals = filter (\<lambda>b. \<not> is_free b) (block_list s);
        used = sum_list (map size_kb vals);
        s' = snd (compact s)
    in (\<not> fst (fst (compact s)) \<longleftrightarrow> vals = [])
       \<and> (vals = [] \<longrightarrow> compact s = ((False, Msg_nothing_to_compact, 0), s))
       \<and> (vals \<noteq> [] \<longrightarrow>
            fst (compact s) = (True, Msg_compacted, length vals)
          \<and> total_memory s' = total_memory s
          \<and> length (block_list s')
              = length vals + (if 0 < total_memory s - used then 1 else 0)
          \<and> (\<forall>i. i < length vals \<longrightarrow>
                block_list s' ! i
                  = \<lparr>start = sum_list (map size_kb (take i vals)),
                     size_kb = size_kb (vals ! i), is_free = False,
                     process_name = process_name (vals ! i)\<rparr>
                \<and> process_map s' (process_name (vals ! i)) = Some (blocks s' ! i))
          \<and> (0 < total_memory s - used \<longrightarrow>
                block_list s' ! length vals
                  = \<lparr>start = used, size_kb = total_memory s - used, is_free = True,
                     process_name = None\<rparr>)
          \<and> dom (process_map s') = dom (process_map s)
          \<and> length (filter is_free (block_list s')) \<le> 1
          \<and> (block_list_invariant s \<longrightarrow>
                (0 < total_memory s - used \<longleftrightarrow> used \<noteq> total_memory s)
              \<and> (\<forall>i j. i < j \<and> j < length vals \<longrightarrow>
                    start (vals ! i) < start (vals ! j)
                    \<and> start (block_list s' ! i) < start (block_list s' ! j)))))"
proof -
  assume r: "reachable s"
  from reachable_ok [OF r] have h: "heap_ok s" and g: "registry_ok s" by simp_all
  define vals where "vals = filter (\<lambda>b. \<not> is_free b) (block_list s)"
  define used where "used = sum_list (map size_kb vals)"
  define s' where "s' = snd (compact s)"
  have av: "map (store s) (allocated_refs s) = vals"
    by (simp add: vals_def allocated_values)
  have empty: "compact s = ((False, Msg_nothing_to_compact, 0), s)" if "vals = []"
  proof -
    from that av have "allocated_refs s = []" by simp
    then show ?thesis by (rule compact_nothing)
  qed
  have full: "fst (compact s) = (True, Msg_compacted, length vals)
          \<and> total_memory s' = total_memory s
          \<and> length (block_list s')
              = length vals + (if 0 < total_memory s - used then 1 else 0)
          \<and> (\<forall>i. i < length vals \<longrightarrow>
                block_list s' ! i
                  = \<lparr>start = sum_list (map size_kb (take i vals)),
                     size_kb = size_kb (vals ! i), is_free = False,
                     process_name = process_name (vals ! i)\<rparr>
                \<and> process_map s' (process_name (vals ! i)) = Some (blocks s' ! i))
          \<and> (0 < total_memory s - used \<longrightarrow>
                block_list s' ! length vals
                  = \<lparr>start = used, size_kb = total_memory s - used, is_free = True,
                     process_name = None\<rparr>)
          \<and> dom (process_map s') = dom (process_map s)
          \<and> length (filter is_free (block_list s')) \<le> 1
          \<and> (block_list_invariant s \<longrightarrow>
                (0 < total_memory s - used \<longleftrightarrow> used \<noteq> total_memory s)
              \<and> (\<forall>i j. i < j \<and> j < length vals \<longrightarrow>
                    start (vals ! i) < start (vals ! j)
                    \<and> start (block_list s' ! i) < start (block_list s' ! j)))"
    if ne: "vals \<noteq> []"
  proof -
    from ne have ne': "filter (\<lambda>b. \<not> is_free b) (block_list s) \<noteq> []" by (simp add: vals_def)
    note V = compact_values [OF h ne', folded vals_def used_def s'_def]
    note G = compact_registry [OF h g ne', folded vals_def s'_def]
    note O = compact_one_free [OF h ne', folded s'_def]
    have nth_new: "block_list s' ! i = relocate 0 vals ! i" if "i < length vals" for i
      unfolding V(3) using that by (simp add: nth_append)
    have c3: "length (block_list s')
              = length vals + (if 0 < total_memory s - used then 1 else 0)"
      unfolding V(3) by simp
    have c4: "\<forall>i. i < length vals \<longrightarrow>
                block_list s' ! i
                  = \<lparr>start = sum_list (map size_kb (take i vals)),
                     size_kb = size_kb (vals ! i), is_free = False,
                     process_name = process_name (vals ! i)\<rparr>
                \<and> process_map s' (process_name (vals ! i)) = Some (blocks s' ! i)"
      using nth_new G(1) by (simp add: relocate_nth)
    have c5: "0 < total_memory s - used \<longrightarrow>
                block_list s' ! length vals
                  = \<lparr>start = used, size_kb = total_memory s - used, is_free = True,
                     process_name = None\<rparr>"
      unfolding V(3) by (simp add: nth_append)
    have c8: "block_list_invariant s \<longrightarrow>
                (0 < total_memory s - used \<longleftrightarrow> used \<noteq> total_memory s)
              \<and> (\<forall>i j. i < j \<and> j < length vals \<longrightarrow>
                    start (vals ! i) < start (vals ! j)
                    \<and> start (block_list s' ! i) < start (block_list s' ! j))"
    proof
      assume inv: "block_list_invariant s"
      note c = invariant_chain_naf(1) [OF inv]
      have pos: "\<forall>x\<in>set (block_list s). 0 < size_kb x" using chain_positive [OF c] by blast
      from sum_filter_le [OF pos] chain_end [OF c]
      have le: "used \<le> total_memory s" by (simp add: used_def vals_def)
      have vp: "\<forall>x\<in>set vals. 0 < size_kb x" using pos by (simp add: vals_def)
      have so: "sorted_wrt (\<lambda>x y. start x < start y) vals"
        unfolding vals_def by (rule sorted_wrt_filter) (rule chain_sorted [OF c])
      have cr: "chain 0 (relocate 0 vals) used"
        using chain_relocate [OF vp, of 0] by (simp add: used_def)
      have "\<forall>i j. i < j \<and> j < length vals \<longrightarrow>
                    start (vals ! i) < start (vals ! j)
                    \<and> start (block_list s' ! i) < start (block_list s' ! j)"
      proof (intro allI impI)
        fix i j assume ij: "i < j \<and> j < length vals"
        then have "start (vals ! i) < start (vals ! j)"
          using so by (simp add: sorted_wrt_iff_nth_less)
        moreover have "start (relocate 0 vals ! i) < start (relocate 0 vals ! j)"
          using chain_ascending [OF cr, of i j] ij by simp
        ultimately show "start (vals ! i) < start (vals ! j)
                    \<and> start (block_list s' ! i) < start (block_list s' ! j)"
          using ij by (simp add: nth_new)
      qed
      with le show "(0 < total_memory s - used \<longleftrightarrow> used \<noteq> total_memory s)
              \<and> (\<forall>i j. i < j \<and> j < length vals \<longrightarrow>
                    start (vals ! i) < start (vals ! j)
                    \<and> start (block_list s' ! i) < start (block_list s' ! j))"
        by auto
    qed
    from V(1,2) c3 c4 c5 G(2) O c8 show ?thesis by blast
  qed
  have iff: "\<not> fst (fst (compact s)) \<longleftrightarrow> vals = []"
  proof
    assume f: "\<not> fst (fst (compact s))"
    show "vals = []"
    proof (rule ccontr)
      assume "vals \<noteq> []"
      from full [OF this] f show False by simp
    qed
  next
    assume "vals = []"
    from empty [OF this] show "\<not> fst (fst (compact s))" by simp
  qed
  from iff empty full show ?thesis
    unfolding Let_def vals_def [symmetric] used_def [symmetric] s'_def [symmetric]
    by blast
qed

theorem compact_relocates_witness:
  "reachable hole_state
   \<and> block_list hole_state
       = [\<lparr>start = 0, size_kb = 128, is_free = True, process_name = None\<rparr>,
          \<lparr>start = 128, size_kb = 128, is_free = False, process_name = Some ''P2''\<rparr>,
          \<lparr>start = 256, size_kb = 768, is_free = True, process_name = None\<rparr>]
   \<and> fst (compact hole_state) = (True, Msg_compacted, 1)
   \<and> length (block_list (snd (compact hole_state))) = 2
   \<and> block_list (snd (compact hole_state)) ! 0
       = \<lparr>start = 0, size_kb = 128, is_free = False, process_name = Some ''P2''\<rparr>
   \<and> block_list (snd (compact hole_state)) ! 1
       = \<lparr>start = 128, size_kb = 896, is_free = True, process_name = None\<rparr>
   \<and> length (filter is_free (block_list (snd (compact hole_state)))) \<le> 1"
proof -
  have r: "reachable hole_state"
    unfolding hole_state_def by (intro reach_deallocate reach_allocate reach_init)
  have bl: "block_list hole_state
       = [\<lparr>start = 0, size_kb = 128, is_free = True, process_name = None\<rparr>,
          \<lparr>start = 128, size_kb = 128, is_free = False, process_name = Some ''P2''\<rparr>,
          \<lparr>start = 256, size_kb = 768, is_free = True, process_name = None\<rparr>]"
    by (simp add: hole_state_def allocate_def deallocate_def merge_free_blocks_def
      find_best_fit_def ImprovisedMemoryManager_def round_to_power_of_2_def
      initialize_memory_def new_block_def list_insert_def block_list_def Let_def)
  have tm: "total_memory hole_state = 1024"
    by (simp add: hole_state_def allocate_def deallocate_def merge_free_blocks_def
      find_best_fit_def ImprovisedMemoryManager_def round_to_power_of_2_def
      initialize_memory_def new_block_def list_insert_def block_list_def Let_def)
  have vals: "filter (\<lambda>b. \<not> is_free b) (block_list hole_state)
      = [\<lparr>start = 128, size_kb = 128, is_free = False, process_name = Some ''P2''\<rparr>]"
    by (simp add: bl)
  note T = compact_relocates [OF r, unfolded Let_def vals tm]
  from T have a: "fst (compact hole_state) = (True, Msg_compacted, 1)"
    and b: "length (block_list (snd (compact hole_state))) = 2"
    and c: "\<forall>i. i < length [\<lparr>start = 128, size_kb = 128, is_free = False,
                                process_name = Some ''P2''\<rparr>] \<longrightarrow>
             block_list (snd (compact hole_state)) ! i
               = \<lparr>start = sum_list (map size_kb (take i
                      [\<lparr>start = 128, size_kb = 128, is_free = False,
                        process_name = Some ''P2''\<rparr>])),
                  size_kb = size_kb ([\<lparr>start = 128, size_kb = 128, is_free = False,
                                       process_name = Some ''P2''\<rparr>] ! i),
                  is_free = False,
                  process_name = process_name ([\<lparr>start = 128, size_kb = 128, is_free = False,
                                       process_name = Some ''P2''\<rparr>] ! i)\<rparr>
             \<and> process_map (snd (compact hole_state))
                  (process_name ([\<lparr>start = 128, size_kb = 128, is_free = False,
                                       process_name = Some ''P2''\<rparr>] ! i))
                 = Some (blocks (snd (compact hole_state)) ! i)"
    and d: "block_list (snd (compact hole_state)) ! 1
       = \<lparr>start = 128, size_kb = 896, is_free = True, process_name = None\<rparr>"
    and e: "length (filter is_free (block_list (snd (compact hole_state)))) \<le> 1"
    by simp_all
  from c have c0: "block_list (snd (compact hole_state)) ! 0
       = \<lparr>start = 0, size_kb = 128, is_free = False, process_name = Some ''P2''\<rparr>"
    by simp
  from r bl a b c0 d e show ?thesis by blast
qed

text \<open>
  The claim fails for all reachable states in two places.  In \<open>overfull_state\<close> the
  one allocated block has size 15 in a capacity of 10: it does not fill the capacity
  exactly, and yet no free block follows it after \<open>compact\<close>.  In \<open>flipped_state\<close>
  block \<open>X\<close> lies at address 0 and block \<open>Y\<close> at address 3; after \<open>compact\<close> \<open>X\<close> lies
  at 0 and \<open>Y\<close> at -2, so their address order is reversed.
\<close>

theorem compact_counterexample:
  "reachable overfull_state
   \<and> total_memory overfull_state = 10
   \<and> block_list overfull_state
       = [\<lparr>start = 0, size_kb = -5, is_free = True, process_name = None\<rparr>,
          \<lparr>start = -5, size_kb = 15, is_free = False, process_name = Some ''B''\<rparr>]
   \<and> fst (compact overfull_state) = (True, Msg_compacted, 1)
   \<and> block_list (snd (compact overfull_state))
       = [\<lparr>start = 0, size_kb = 15, is_free = False, process_name = Some ''B''\<rparr>]
   \<and> reachable flipped_state
   \<and> block_list flipped_state
       = [\<lparr>start = 0, size_kb = -2, is_free = False, process_name = Some ''X''\<rparr>,
          \<lparr>start = -2, size_kb = 5, is_free = True, process_name = None\<rparr>,
          \<lparr>start = 3, size_kb = 7, is_free = False, process_name = Some ''Y''\<rparr>]
   \<and> block_list (snd (compact flipped_state))
       = [\<lparr>start = 0, size_kb = -2, is_free = False, process_name = Some ''X''\<rparr>,
          \<lparr>start = -2, size_kb = 7, is_free = False, process_name = Some ''Y''\<rparr>,
          \<lparr>start = 5, size_kb = 5, is_free = True, process_name = None\<rparr>]"
proof -
  note ev = allocate_def deallocate_def merge_free_blocks_def compact_def
      find_best_fit_def ImprovisedMemoryManager_def
      initialize_memory_def new_block_def list_insert_def block_list_def Let_def
  have r1: "reachable overfull_state"
    unfolding overfull_state_def by (intro reach_deallocate reach_allocate reach_init)
  have r2: "reachable flipped_state"
    unfolding flipped_state_def by (intro reach_deallocate reach_allocate reach_init)
  have t1: "total_memory overfull_state = 10"
    by (simp add: overfull_state_def ev)
  have b1: "block_list overfull_state
       = [\<lparr>start = 0, size_kb = -5, is_free = True, process_name = None\<rparr>,
          \<lparr>start = -5, size_kb = 15, is_free = False, process_name = Some ''B''\<rparr>]"
    by (simp add: overfull_state_def ev)
  have f1: "fst (compact overfull_state) = (True, Msg_compacted, 1)"
    by (simp add: overfull_state_def ev)
  have c1: "block_list (snd (compact overfull_state))
       = [\<lparr>start = 0, size_kb = 15, is_free = False, process_name = Some ''B''\<rparr>]"
    by (simp add: overfull_state_def ev)
  have b2: "block_list flipped_state
       = [\<lparr>start = 0, size_kb = -2, is_free = False, process_name = Some ''X''\<rparr>,
          \<lparr>start = -2, size_kb = 5, is_free = True, process_name = None\<rparr>,
          \<lparr>start = 3, size_kb = 7, is_free = False, process_name = Some ''Y''\<rparr>]"
    by (simp add: flipped_state_def ev)
  have c2: "block_list (snd (compact flipped_state))
       = [\<lparr>start = 0, size_kb = -2, is_free = False, process_name = Some ''X''\<rparr>,
          \<lparr>start = -2, size_kb = 7, is_free = False, process_name = Some ''Y''\<rparr>,
          \<lparr>start = 5, size_kb = 5, is_free = True, process_name = None\<rparr>]"
    by (simp add: flipped_state_def ev)
  from r1 t1 b1 f1 c1 r2 b2 c2 show ?thesis by blast
qed

subsection \<open>Two scenarios of the specification\<close>

text \<open>
  Capacity 1024, rounding on, \<open>X\<close> requests 100: where \<open>math.ceil(math.log2(100))\<close>
  is 7, the engine reserves 128 units and the used memory is 128.
\<close>

lemma allocate_100_reserves_128:
  assumes "lc 100 = 7"
  shows "round_to_power_of_2 lc 100 = 128"
    and "fst (allocate lc (ImprovisedMemoryManager 1024) ''X'' 100 True)
           = (True, Msg_allocated ''X'' 128, Some 0)"
    and "get_used_memory (snd (allocate lc (ImprovisedMemoryManager 1024) ''X'' 100 True)) = 128"
proof -
  show "round_to_power_of_2 lc 100 = 128"
    using assms by (simp add: round_to_power_of_2_def)
  show "fst (allocate lc (ImprovisedMemoryManager 1024) ''X'' 100 True)
           = (True, Msg_allocated ''X'' 128, Some 0)"
    using assms
    by (simp add: allocate_def find_best_fit_def ImprovisedMemoryManager_def
        initialize_memory_def new_block_def list_insert_def Let_def round_to_power_of_2_def)
  show "get_used_memory (snd (allocate lc (ImprovisedMemoryManager 1024) ''X'' 100 True)) = 128"
    using assms
    by (simp add: get_used_memory_def allocate_def find_best_fit_def ImprovisedMemoryManager_def
        initialize_memory_def new_block_def list_insert_def block_list_def Let_def
        round_to_power_of_2_def)
qed

text \<open>
  Where the division of the two counts is exact in double precision, the
  fragmentation ratio is the quotient itself.
\<close>

lemma fragmentation_ratio_exact_quotient:
  assumes "true_div (int (length (filter is_free (block_list s))) - 1)
             (int (length (block_list s)))
           = (real (length (filter is_free (block_list s))) - 1) / real (length (block_list s))"
    and "1 < length (filter is_free (block_list s))"
  shows "fst (get_fragmentation_ratio true_div s)
           = (real (length (filter is_free (block_list s))) - 1) / real (length (block_list s))"
  using assms
  by (simp add: get_fragmentation_ratio_def Let_def block_list_def filter_map comp_def)

end
